theory Spec2Isabelle
  imports Complex_Main "HOL-Library.Multiset" "HOL-Library.Log_Nat"
begin

text \<open>
  A model of \<^verbatim>\<open>src/App.tsx\<close>, the editor of a forest of classification nodes: the
  functions on forests, the layout, the search matcher and the event handlers of the
  component as functions from state to state, followed by the properties that the
  specification states about them.
\<close>

section \<open>The forest data model\<close>

text \<open>
  \<^verbatim>\<open>type TreeNode = { id: string; name: string; children: TreeNode[] }\<close> and
  \<^verbatim>\<open>type Forest = TreeNode[]\<close>.  The field \<open>id\<close> is called \<open>nid\<close> here, since \<open>id\<close> is
  the identity function of HOL.
\<close>

datatype TreeNode = TreeNode (nid: string) (name: string) (children: "TreeNode list")

type_synonym Forest = "TreeNode list"

text \<open>
  \<^verbatim>\<open>flattenForest\<close>: the nodes in depth-first preorder (a node, then its children's
  subtrees, then its later siblings).
\<close>

fun flattenForest :: "Forest \<Rightarrow> TreeNode list" where
  "flattenForest [] = []"
| "flattenForest (TreeNode i nm cs # ns) =
     TreeNode i nm cs # flattenForest cs @ flattenForest ns"

text \<open>The ids of a forest in preorder; the data model asks them to be distinct.\<close>

definition ids :: "Forest \<Rightarrow> string list" where
  "ids f = map nid (flattenForest f)"

text \<open>
  \<^verbatim>\<open>findNodeAndParent\<close>: the first node in preorder whose id is \<open>i\<close>, with its parent
  (\<open>None\<close> for a root).  The inner \<^verbatim>\<open>dfs(nodes, p)\<close> returns whether it found the node;
  here it returns what it stored in \<^verbatim>\<open>parent\<close> and \<^verbatim>\<open>found\<close>.
\<close>

fun findNodeAndParent_dfs ::
  "string \<Rightarrow> TreeNode list \<Rightarrow> TreeNode option \<Rightarrow> (TreeNode option \<times> TreeNode) option" where
  "findNodeAndParent_dfs i [] p = None"
| "findNodeAndParent_dfs i (TreeNode a nm cs # ns) p =
     (if a = i then Some (p, TreeNode a nm cs)
      else (case findNodeAndParent_dfs i cs (Some (TreeNode a nm cs)) of
              Some r \<Rightarrow> Some r
            | None \<Rightarrow> findNodeAndParent_dfs i ns p))"

definition findNodeAndParent :: "Forest \<Rightarrow> string \<Rightarrow> TreeNode option \<times> TreeNode option" where
  "findNodeAndParent forest i =
     (case findNodeAndParent_dfs i forest None of
        None \<Rightarrow> (None, None)
      | Some (p, n) \<Rightarrow> (p, Some n))"

section \<open>The visibility projection\<close>

text \<open>
  \<^verbatim>\<open>buildVisibleForest\<close>: a node whose id is collapsed loses its children, any other
  node keeps its projected children.
\<close>

fun mapNode :: "string set \<Rightarrow> TreeNode \<Rightarrow> TreeNode" where
  "mapNode collapsedIds (TreeNode i nm cs) =
     (if i \<in> collapsedIds then TreeNode i nm []
      else TreeNode i nm (map (mapNode collapsedIds) cs))"

definition buildVisibleForest :: "Forest \<Rightarrow> string set \<Rightarrow> Forest" where
  "buildVisibleForest forest collapsedIds = map (mapNode collapsedIds) forest"

section \<open>Structural queries and edits\<close>

text \<open>
  \<^verbatim>\<open>isDescendant(forest, ancestorId, maybeDescendantId)\<close>: looks the ancestor up with
  \<^verbatim>\<open>findNodeAndParent\<close> and searches below it (the ancestor itself excluded).
\<close>

fun isDescendant_dfs :: "string \<Rightarrow> TreeNode list \<Rightarrow> bool" where
  "isDescendant_dfs d [] = False"
| "isDescendant_dfs d (TreeNode a nm cs # ns) =
     (if a = d then True
      else if isDescendant_dfs d cs then True
      else isDescendant_dfs d ns)"

definition isDescendant :: "Forest \<Rightarrow> string \<Rightarrow> string \<Rightarrow> bool" where
  "isDescendant forest ancestorId maybeDescendantId =
     (case snd (findNodeAndParent forest ancestorId) of
        None \<Rightarrow> False
      | Some anc \<Rightarrow> isDescendant_dfs maybeDescendantId (children anc))"

text \<open>
  The editing functions of the source work on \<^verbatim>\<open>cloneDeep(forest)\<close>, a fresh tree that
  shares nothing with the old one, find an object in it by a depth-first search and
  update that object in place.  The model does the search and the update in one
  traversal that follows the search order of the source and rebuilds the forest around
  the place that was found; \<open>None\<close> says that the search found nothing.

  \<^verbatim>\<open>detachNode\<close>: \<^verbatim>\<open>nodes.splice(i, 1)\<close> at the first node in preorder with the id.
\<close>

fun detachNode_dfs :: "string \<Rightarrow> TreeNode list \<Rightarrow> (TreeNode list \<times> TreeNode) option" where
  "detachNode_dfs i [] = None"
| "detachNode_dfs i (TreeNode a nm cs # ns) =
     (if a = i then Some (ns, TreeNode a nm cs)
      else (case detachNode_dfs i cs of
              Some (cs', d) \<Rightarrow> Some (TreeNode a nm cs' # ns, d)
            | None \<Rightarrow>
               (case detachNode_dfs i ns of
                  Some (ns', d) \<Rightarrow> Some (TreeNode a nm cs # ns', d)
                | None \<Rightarrow> None)))"

definition detachNode :: "Forest \<Rightarrow> string \<Rightarrow> Forest \<times> TreeNode option" where
  "detachNode forest nodeId =
     (case detachNode_dfs nodeId forest of
        None \<Rightarrow> (forest, None)
      | Some (updated, d) \<Rightarrow> (updated, Some d))"

text \<open>
  \<^verbatim>\<open>target.children.push(...xs)\<close> for the \<^verbatim>\<open>target\<close> that
  \<^verbatim>\<open>findNodeAndParent(updated, targetId).node\<close> returns: the first node in preorder
  with the id gets \<open>xs\<close> appended to its children.
\<close>

fun pushChildren :: "string \<Rightarrow> TreeNode list \<Rightarrow> TreeNode list \<Rightarrow> TreeNode list option" where
  "pushChildren t xs [] = None"
| "pushChildren t xs (TreeNode a nm cs # ns) =
     (if a = t then Some (TreeNode a nm (cs @ xs) # ns)
      else (case pushChildren t xs cs of
              Some cs' \<Rightarrow> Some (TreeNode a nm cs' # ns)
            | None \<Rightarrow>
               (case pushChildren t xs ns of
                  Some ns' \<Rightarrow> Some (TreeNode a nm cs # ns')
                | None \<Rightarrow> None)))"

text \<open>\<^verbatim>\<open>moveNodeAsChild\<close>, returning \<^verbatim>\<open>{ forest, moved }\<close> as a pair.\<close>

definition moveNodeAsChild :: "Forest \<Rightarrow> string \<Rightarrow> string \<Rightarrow> Forest \<times> bool" where
  "moveNodeAsChild forest draggingId targetId =
     (if draggingId = targetId then (forest, False)
      else if isDescendant forest draggingId targetId then (forest, False)
      else (case detachNode forest draggingId of
              (without, None) \<Rightarrow> (forest, False)
            | (without, Some detached) \<Rightarrow>
               (case pushChildren targetId [detached] without of
                  None \<Rightarrow> (forest, False)
                | Some moved \<Rightarrow> (moved, True))))"

text \<open>
  The removal that \<^verbatim>\<open>deleteNodeAndChildren\<close> and \<^verbatim>\<open>confirmReassignChildren\<close> share:
  \<^verbatim>\<open>
    const { parent } = findNodeAndParent(updated, nodeId);
    if (!parent) {
      const idx = updated.findIndex((n) => n.id === nodeId);
      if (idx >= 0) updated.splice(idx, 1);
    } else parent.children = (parent.children || []).filter((c) => c.id !== nodeId);
  \<close>
  \<open>removeUnderParent\<close> is the search below the roots: where it finds the id, the list it
  is walking is the children array of the parent, whose earlier elements it has passed
  because their ids differ, so that filtering the rest filters the whole array.
  \<open>removeNode\<close> is the search through the roots: a root with the id is the first such
  root, the one \<^verbatim>\<open>findIndex\<close> returns (the parent is \<^verbatim>\<open>null\<close> then); when the id is
  nowhere, \<^verbatim>\<open>findIndex\<close> returns -1 and nothing changes.
\<close>

fun removeUnderParent :: "string \<Rightarrow> TreeNode list \<Rightarrow> TreeNode list option" where
  "removeUnderParent i [] = None"
| "removeUnderParent i (TreeNode a nm cs # ns) =
     (if a = i then Some (filter (\<lambda>c. nid c \<noteq> i) (TreeNode a nm cs # ns))
      else (case removeUnderParent i cs of
              Some cs' \<Rightarrow> Some (TreeNode a nm cs' # ns)
            | None \<Rightarrow>
               (case removeUnderParent i ns of
                  Some ns' \<Rightarrow> Some (TreeNode a nm cs # ns')
                | None \<Rightarrow> None)))"

fun removeNode :: "string \<Rightarrow> Forest \<Rightarrow> Forest" where
  "removeNode i [] = []"
| "removeNode i (TreeNode a nm cs # ns) =
     (if a = i then ns
      else (case removeUnderParent i cs of
              Some cs' \<Rightarrow> TreeNode a nm cs' # ns
            | None \<Rightarrow> TreeNode a nm cs # removeNode i ns))"

text \<open>\<^verbatim>\<open>node.name = next\<close> for the node that \<^verbatim>\<open>findNodeAndParent\<close> returns.\<close>

fun renameNode :: "string \<Rightarrow> string \<Rightarrow> TreeNode list \<Rightarrow> TreeNode list option" where
  "renameNode i new [] = None"
| "renameNode i new (TreeNode a nm cs # ns) =
     (if a = i then Some (TreeNode a new cs # ns)
      else (case renameNode i new cs of
              Some cs' \<Rightarrow> Some (TreeNode a nm cs' # ns)
            | None \<Rightarrow>
               (case renameNode i new ns of
                  Some ns' \<Rightarrow> Some (TreeNode a nm cs # ns')
                | None \<Rightarrow> None)))"

section \<open>Double-precision arithmetic\<close>

text \<open>
  A \<^verbatim>\<open>number\<close> of the source is an IEEE 754 double; a finite double is modelled by the
  rational it denotes.  \<open>roundDouble\<close> is the rounding of the language's arithmetic: to
  the nearest double, a tie to the one with the even significand.  With \<open>e\<close> the
  exponent of the binary digit that leads \<open>x\<close> (not below -1022, where the subnormal
  numbers begin), the doubles next to \<open>x\<close> are the multiples of \<open>2 ^ (e - 52)\<close>.  A result
  from \<open>2 ^ 1024\<close> on, which the source turns into \<^verbatim>\<open>Infinity\<close>, is not modelled: the
  layout divides sums of numbers below the leaf count, far from it.
\<close>

definition pow2 :: "int \<Rightarrow> rat" where
  "pow2 e = (if 0 \<le> e then 2 ^ nat e else 1 / 2 ^ nat (- e))"

text \<open>
  The exponent of the leading binary digit of \<open>a > 0\<close>, the largest \<open>e\<close> with
  \<open>2 ^ e \<le> a\<close>, from the bit length of an integer next to \<open>a\<close> or to \<open>1 / a\<close>.
\<close>

definition floorLog2 :: "rat \<Rightarrow> int" where
  "floorLog2 a = (if 1 \<le> a then bitlen \<lfloor>a\<rfloor> - 1 else - bitlen (\<lceil>1 / a\<rceil> - 1))"

definition roundHalfEven :: "rat \<Rightarrow> int" where
  "roundHalfEven x =
     (let f = \<lfloor>x\<rfloor>; r = x - of_int f
      in if r < 1 / 2 then f else if 1 / 2 < r then f + 1 else if even f then f else f + 1)"

definition roundDouble :: "rat \<Rightarrow> rat" where
  "roundDouble x =
     (if x = 0 then 0
      else (let a = \<bar>x\<bar>; e = max (floorLog2 a) (- 1022); ulp = pow2 (e - 52)
            in sgn x * of_int (roundHalfEven (a / ulp)) * ulp))"

text \<open>\<^verbatim>\<open>a + b\<close> and \<^verbatim>\<open>a / b\<close> on doubles (the layout never divides by zero).\<close>

definition addDouble :: "rat \<Rightarrow> rat \<Rightarrow> rat" where
  "addDouble a b = roundDouble (a + b)"


section \<open>Layout\<close>





section \<open>The text of a rename\<close>

text \<open>
  The drafts and names that the forest functions carry are lists of \<open>char\<close>; they are
  stored, compared and trimmed, nothing else.  \<open>isWhiteSpace\<close> is what
  \<^verbatim>\<open>String.prototype.trim\<close> strips among the characters below 256: tab, line feed,
  vertical tab, form feed, carriage return, space and no-break space.
\<close>

definition isWhiteSpace :: "char \<Rightarrow> bool" where
  "isWhiteSpace c = (c \<in> {CHR 0x09, CHR 0x0A, CHR 0x0B, CHR 0x0C, CHR 0x0D, CHR 0x20, CHR 0xA0})"

definition trim :: "string \<Rightarrow> string" where
  "trim s = rev (dropWhile isWhiteSpace (rev (dropWhile isWhiteSpace s)))"

section \<open>The search matcher\<close>

text \<open>
  The matcher looks into its texts, so there a string is what it is in the source: a
  sequence of UTF-16 code units, each modelled by its number.  \<open>units\<close> gives the code
  units of a text of ASCII characters, to write the examples.
\<close>

type_synonym codeUnit = nat

definition units :: "string \<Rightarrow> codeUnit list" where
  "units s = map of_char s"

text \<open>
  What \<^verbatim>\<open>String.prototype.trim\<close> strips: the white space and the line terminators of
  the language (tab, line feed, vertical tab, form feed, carriage return, space,
  no-break space, U+1680, U+2000 to U+200A, the line and paragraph separators, U+202F,
  U+205F, U+3000 and the byte order mark).
\<close>

definition isWhiteSpaceUnit :: "codeUnit \<Rightarrow> bool" where
  "isWhiteSpaceUnit c =
     (c \<in> {0x09, 0x0A, 0x0B, 0x0C, 0x0D, 0x20, 0xA0, 0x1680, 0x2028, 0x2029, 0x202F, 0x205F,
            0x3000, 0xFEFF}
      \<or> (0x2000 \<le> c \<and> c \<le> 0x200A))"

definition trimUnits :: "codeUnit list \<Rightarrow> codeUnit list" where
  "trimUnits s = rev (dropWhile isWhiteSpaceUnit (rev (dropWhile isWhiteSpaceUnit s)))"

text \<open>
  \<^verbatim>\<open>escapeRegExp = (value) => value.replace(/[.*+?^${}()|[\]\\]/g, '\\$&')\<close>: every
  character of the class is replaced by a backslash (code unit 0x5C) and itself.
  \<open>escapeClass\<close> is the class as the source writes it: the thirteen characters
  \<^verbatim>\<open>. * + ? ^ $ { } ( ) | [ ]\<close> and, last, the backslash.
\<close>

definition escapeClass :: "codeUnit set" where
  "escapeClass = set (units ''.*+?^${}()|[]'') \<union> {0x5C}"

definition escapeRegExp :: "codeUnit list \<Rightarrow> codeUnit list" where
  "escapeRegExp v = concat (map (\<lambda>c. if c \<in> escapeClass then [0x5C, c] else [c]) v)"

text \<open>
  \<^verbatim>\<open>new RegExp(pattern, 'i')\<close> is the language's.  Its grammar has the syntax characters
  \<^verbatim>\<open>^ $ \ . * + ? ( ) [ ] { } |\<close>, here by their code units in the order of the
  grammar's production.  A character that is not one of them is a pattern character
  and stands for itself; a backslash before a syntax character is an identity escape
  and stands for that character; a backslash that ends the pattern is a syntax error.
  The model compiles the patterns made of these to the characters they stand for, and
  has nothing to say about any other pattern (\<open>Unmodelled\<close>), which the engine may
  compile to an operator or refuse.
\<close>

definition SyntaxCharacter :: "codeUnit set" where
  "SyntaxCharacter =
     {0x5E, 0x24, 0x5C, 0x2E, 0x2A, 0x2B, 0x3F, 0x28, 0x29, 0x5B, 0x5D, 0x7B, 0x7D, 0x7C}"

datatype RegExpResult = Regex "codeUnit list" | SyntaxError | Unmodelled

fun andThen :: "codeUnit \<Rightarrow> RegExpResult \<Rightarrow> RegExpResult" where
  "andThen c (Regex ls) = Regex (c # ls)"
| "andThen c SyntaxError = SyntaxError"
| "andThen c Unmodelled = Unmodelled"

fun RegExp :: "codeUnit list \<Rightarrow> RegExpResult" where
  "RegExp [] = Regex []"
| "RegExp [c] =
     (if c = 0x5C then SyntaxError
      else if c \<in> SyntaxCharacter then Unmodelled
      else Regex [c])"
| "RegExp (c # d # r) =
     (if c = 0x5C then
        (if d \<in> SyntaxCharacter then andThen d (RegExp r) else Unmodelled)
      else if c \<in> SyntaxCharacter then Unmodelled
      else andThen c (RegExp (d # r)))"

text \<open>
  With the flag \<^verbatim>\<open>i\<close> two characters match when they have the same canonical form.
  The canonical form of a character is its upper case when that is a single code
  unit, except that a character from 128 on is not mapped below 128; otherwise the
  character itself.  The upper case is that of Unicode, a table of the language, and
  is an argument: \<open>upper c\<close> is \<^verbatim>\<open>toUpperCase\<close> of the one-character string \<open>c\<close>.
\<close>

definition canonicalize :: "(codeUnit \<Rightarrow> codeUnit list) \<Rightarrow> codeUnit \<Rightarrow> codeUnit" where
  "canonicalize upper ch =
     (case upper ch of
        [cu] \<Rightarrow> if 128 \<le> ch \<and> cu < 128 then ch else cu
      | _ \<Rightarrow> ch)"

text \<open>A sequence of literals matches at the start of the text.\<close>

fun matchesAt :: "(codeUnit \<Rightarrow> codeUnit list) \<Rightarrow> codeUnit list \<Rightarrow> codeUnit list \<Rightarrow> bool" where
  "matchesAt upper [] txt = True"
| "matchesAt upper (p # ps) [] = False"
| "matchesAt upper (p # ps) (c # cs) =
     (canonicalize upper p = canonicalize upper c \<and> matchesAt upper ps cs)"

text \<open>\<^verbatim>\<open>re.test(text)\<close> for a regular expression without the flag \<^verbatim>\<open>g\<close>: a match at some position.\<close>

fun test :: "(codeUnit \<Rightarrow> codeUnit list) \<Rightarrow> codeUnit list \<Rightarrow> codeUnit list \<Rightarrow> bool" where
  "test upper lits [] = matchesAt upper lits []"
| "test upper lits (c # cs) = (matchesAt upper lits (c # cs) \<or> test upper lits cs)"

text \<open>
  \<^verbatim>\<open>queryRe\<close>, as a function of the query: \<open>None\<close> is \<^verbatim>\<open>null\<close>, for a query that trims
  to nothing and from the \<^verbatim>\<open>catch\<close> of a pattern that does not compile.
\<close>

definition queryRe :: "codeUnit list \<Rightarrow> RegExpResult option" where
  "queryRe query =
     (let q = trimUnits query
      in if q = [] then None
         else (case RegExp (escapeRegExp q) of
                 SyntaxError \<Rightarrow> None
               | r \<Rightarrow> Some r))"

text \<open>
  \<^verbatim>\<open>isMatch = (name) => (queryRe ? queryRe.test(name) : false)\<close>.  The result is \<open>None\<close>
  where the pattern is one the model has nothing to say about.
\<close>

definition isMatch ::
  "(codeUnit \<Rightarrow> codeUnit list) \<Rightarrow> codeUnit list \<Rightarrow> codeUnit list \<Rightarrow> bool option" where
  "isMatch upper query nm =
     (case queryRe query of
        None \<Rightarrow> Some False
      | Some (Regex lits) \<Rightarrow> Some (test upper lits nm)
      | Some _ \<Rightarrow> None)"

section \<open>The state of the application and its event handlers\<close>

text \<open>
  The summary of a change is a Russian sentence built from a fixed template and the
  names it mentions; the model keeps the template and the names.
\<close>

datatype Summary =
    GroupRenamed string string
  | NodeAdded string string
  | NodeDeletedWithChildren string
  | NodeDeletedChildrenReassigned string string
  | NodeRenamed string string
  | NodeMoved string string

text \<open>\<^verbatim>\<open>type ChangeLogItem = { id: string; at: number; summary: string }\<close>, with \<open>itemId\<close> for \<^verbatim>\<open>id\<close> and \<open>atTime\<close> for \<^verbatim>\<open>at\<close>.\<close>

record ChangeLogItem =
  itemId :: string
  atTime :: int
  summary :: Summary

text \<open>\<^verbatim>\<open>type DragState = { draggingId: string; x: number; y: number }\<close>\<close>

record DragState =
  draggingId :: string
  dragX :: rat
  dragY :: rat

text \<open>
  \<^verbatim>\<open>type OverlayState = { nodeId: string; rect: { left, top, width, height } }\<close>, the
  rectangle as a tuple.
\<close>

record OverlayState =
  nodeId :: string
  rect :: "rat \<times> rat \<times> rat \<times> rat"

text \<open>The state \<^verbatim>\<open>deleteDialog\<close>: \<^verbatim>\<open>{ open: boolean; nodeId: string | null }\<close>.\<close>

record DeleteDialog =
  isOpen :: bool
  dialogNodeId :: "string option"

text \<open>
  The \<^verbatim>\<open>useState\<close> cells of \<^verbatim>\<open>App\<close> that the handlers below read or write.  A value
  that may be \<^verbatim>\<open>null\<close> is an option.  The timers, the references to page elements and
  the three cells that fold the side panel's sections are left out.
\<close>

record AppState =
  committedAt :: int
  committedGroupName :: string
  activeTab :: string
  groupName :: string
  dims :: "string list"
  forest :: Forest
  selectedId :: "string option"
  panelOpen :: bool
  collapsed :: "string set"
  query :: "codeUnit list"
  editingGroup :: bool
  groupDraft :: string
  editingDimIndex :: "nat option"
  dimDraft :: string
  editingNodeId :: "string option"
  nodeDraft :: string
  changeLog :: "ChangeLogItem list"
  justApplied :: bool
  deleteDialog :: DeleteDialog
  reassignTargetId :: "string option"
  drag :: "DragState option"
  dropTargetId :: "string option"
  overlay :: "OverlayState option"

text \<open>
  \<^verbatim>\<open>!v\<close> for a \<^verbatim>\<open>string | null\<close>: \<^verbatim>\<open>null\<close> and the empty string are falsy.
\<close>

fun truthy :: "string option \<Rightarrow> bool" where
  "truthy None = False"
| "truthy (Some s) = (s \<noteq> [])"

text \<open>\<^verbatim>\<open>findNodeAndParent(forest, id).node?.name || ''\<close>\<close>

definition nodeNameOf :: "Forest \<Rightarrow> string \<Rightarrow> string" where
  "nodeNameOf f i = (case snd (findNodeAndParent f i) of None \<Rightarrow> [] | Some n \<Rightarrow> name n)"

text \<open>
  \<^verbatim>\<open>addChange\<close>: \<^verbatim>\<open>[...prev, { id: uid(), at: Date.now(), summary }].slice(-80)\<close>.  The
  fresh id and the clock are arguments of every handler that logs a change.
\<close>

definition sliceLast :: "nat \<Rightarrow> 'a list \<Rightarrow> 'a list" where
  "sliceLast k xs = drop (length xs - k) xs"

definition addChange :: "string \<Rightarrow> int \<Rightarrow> Summary \<Rightarrow> AppState \<Rightarrow> AppState" where
  "addChange uid now s st =
     st\<lparr>changeLog := sliceLast 80 (changeLog st @ [\<lparr>itemId = uid, atTime = now, summary = s\<rparr>])\<rparr>"

text \<open>\<^verbatim>\<open>applyChanges\<close> (the timer that resets \<^verbatim>\<open>justApplied\<close> later is not part of the step).\<close>

definition applyChanges :: "int \<Rightarrow> AppState \<Rightarrow> AppState" where
  "applyChanges now st =
     st\<lparr>committedAt := now, committedGroupName := groupName st, changeLog := [],
        justApplied := True\<rparr>"

definition expandNode :: "string \<Rightarrow> AppState \<Rightarrow> AppState" where
  "expandNode i st = st\<lparr>collapsed := collapsed st - {i}\<rparr>"

definition closeDeleteDialog :: "AppState \<Rightarrow> AppState" where
  "closeDeleteDialog st =
     st\<lparr>deleteDialog := \<lparr>isOpen = False, dialogNodeId = None\<rparr>, reassignTargetId := None\<rparr>"

definition deleteNodeAndChildren :: "string \<Rightarrow> int \<Rightarrow> string \<Rightarrow> AppState \<Rightarrow> AppState" where
  "deleteNodeAndChildren uid now i st =
     (let nodeName = nodeNameOf (forest st) i;
          updated = removeNode i (forest st);
          isSelected = (selectedId st = Some i);
          isEdited = (editingNodeId st = Some i);
          isOverlaid = (case overlay st of None \<Rightarrow> False | Some ov \<Rightarrow> nodeId ov = i)
      in addChange uid now (NodeDeletedWithChildren nodeName)
           (st\<lparr>forest := updated,
               collapsed := collapsed st - {i},
               selectedId := (if isSelected then None else selectedId st),
               panelOpen := (if isSelected then False else panelOpen st),
               editingNodeId := (if isEdited then None else editingNodeId st),
               nodeDraft := (if isEdited then [] else nodeDraft st),
               overlay := (if isOverlaid then None else overlay st)\<rparr>))"

definition confirmDeleteWithChildren :: "string \<Rightarrow> int \<Rightarrow> AppState \<Rightarrow> AppState" where
  "confirmDeleteWithChildren uid now st =
     (if \<not> truthy (dialogNodeId (deleteDialog st)) then st
      else (case dialogNodeId (deleteDialog st) of
              None \<Rightarrow> st
            | Some i \<Rightarrow> closeDeleteDialog (deleteNodeAndChildren uid now i st)))"

text \<open>
  \<^verbatim>\<open>confirmReassignChildren\<close>.  After \<^verbatim>\<open>target.children.push(...node.children)\<close> the
  pushed children are shared by the target and the node that is about to go.  The
  removal that follows writes the children array of the parent of the first node with
  the id; when no node below the deleted one carries its id (so when ids are distinct)
  that parent is none of the shared objects, and the update of the forest as a value,
  which is what the model does, is what the source does.
\<close>

definition confirmReassignChildren :: "string \<Rightarrow> int \<Rightarrow> AppState \<Rightarrow> AppState" where
  "confirmReassignChildren uid now st =
     (if \<not> truthy (dialogNodeId (deleteDialog st)) \<or> \<not> truthy (reassignTargetId st) then st
      else (case (dialogNodeId (deleteDialog st), reassignTargetId st) of
              (Some i, Some t) \<Rightarrow>
                (if t = i \<or> isDescendant (forest st) i t then st
                 else (case snd (findNodeAndParent (forest st) i) of
                         None \<Rightarrow> st
                       | Some node \<Rightarrow>
                          (case pushChildren t (children node) (forest st) of
                             None \<Rightarrow> st
                           | Some pushed \<Rightarrow>
                               addChange uid now
                                 (NodeDeletedChildrenReassigned
                                    (nodeNameOf (forest st) i) (nodeNameOf (forest st) t))
                                 (closeDeleteDialog (st\<lparr>forest := removeNode i pushed\<rparr>)))))
            | _ \<Rightarrow> st))"

definition commitRenameNode :: "string \<Rightarrow> int \<Rightarrow> AppState \<Rightarrow> AppState" where
  "commitRenameNode uid now st =
     (let next = trim (nodeDraft st)
      in if next = [] \<or> \<not> truthy (editingNodeId st) then st
         else (case editingNodeId st of
                 None \<Rightarrow> st
               | Some i \<Rightarrow>
                  (case renameNode i next (forest st) of
                     None \<Rightarrow> st
                   | Some updated \<Rightarrow>
                       addChange uid now (NodeRenamed (nodeNameOf (forest st) i) next)
                         (st\<lparr>forest := updated, editingNodeId := None, nodeDraft := []\<rparr>))))"

text \<open>
  \<^verbatim>\<open>startDrag(nodeId, e)\<close>, the handler of a pointer-down on a node's drag handle, with
  the pointer position \<^verbatim>\<open>e.clientX\<close>, \<^verbatim>\<open>e.clientY\<close>.  The reparent controller is idle
  when \<^verbatim>\<open>drag\<close> is \<^verbatim>\<open>null\<close> and dragging otherwise.  The timer of the overlay
  and the pointer capture are outside the state.
\<close>

definition startDrag :: "string \<Rightarrow> rat \<Rightarrow> rat \<Rightarrow> AppState \<Rightarrow> AppState" where
  "startDrag i clientX clientY st =
     (if truthy (editingNodeId st) \<or> isOpen (deleteDialog st) then st
      else st\<lparr>overlay := None, panelOpen := False,
              drag := Some \<lparr>draggingId = i, dragX = clientX, dragY = clientY\<rparr>,
              dropTargetId := None\<rparr>)"

text \<open>\<^verbatim>\<open>finishDrag(finalDropTargetId, draggingId)\<close>, called on pointer-up.\<close>

definition finishDrag :: "string \<Rightarrow> int \<Rightarrow> string option \<Rightarrow> string \<Rightarrow> AppState \<Rightarrow> AppState" where
  "finishDrag uid now finalDropTargetId dragging st =
     (if \<not> truthy finalDropTargetId then st\<lparr>drag := None, dropTargetId := None\<rparr>
      else (case finalDropTargetId of
              None \<Rightarrow> st\<lparr>drag := None, dropTargetId := None\<rparr>
            | Some t \<Rightarrow>
               (case moveNodeAsChild (forest st) dragging t of
                  (res, True) \<Rightarrow>
                    (addChange uid now
                       (NodeMoved (nodeNameOf (forest st) dragging) (nodeNameOf (forest st) t))
                       (expandNode t (st\<lparr>forest := res, selectedId := Some dragging\<rparr>)))
                      \<lparr>drag := None, dropTargetId := None\<rparr>
                | (res, False) \<Rightarrow> st\<lparr>drag := None, dropTargetId := None\<rparr>)))"

section \<open>Auxiliary functions of the proofs\<close>

text \<open>
  \<open>prune i\<close> drops every node with the id \<open>i\<close>, with its subtree, wherever it is.
  The removal of the source agrees with it on a forest in which \<open>i\<close> occurs at most once.
\<close>

fun prune :: "string \<Rightarrow> Forest \<Rightarrow> Forest" where
  "prune i [] = []"
| "prune i (TreeNode a nm cs # ns) =
     (if a = i then prune i ns else TreeNode a nm (prune i cs) # prune i ns)"

text \<open>
  \<open>graft t xs\<close> appends \<open>xs\<close> to the children of every node with the id \<open>t\<close>.
  \<open>pushChildren\<close> agrees with it on a forest with distinct ids that has \<open>t\<close>.
\<close>

fun graft :: "string \<Rightarrow> TreeNode list \<Rightarrow> Forest \<Rightarrow> Forest" where
  "graft t xs [] = []"
| "graft t xs (TreeNode a nm cs # ns) =
     TreeNode a nm (graft t xs cs @ (if a = t then xs else [])) # graft t xs ns"

text \<open>
  The layout as pure functions.  \<open>leafCount\<close> counts the leaves of a forest; \<open>yOf k n\<close>
  is the \<open>y\<close> that \<open>walk\<close> returns for \<open>n\<close> when the leaf counter stands at \<open>k\<close>;
  \<open>posOfN\<close> and \<open>posOfF\<close> are the entries that \<open>walk\<close> and \<open>walks\<close> write, later ones over
  earlier ones; \<open>placed\<close> lists every node in preorder with the position it is given.
\<close>

definition leafCount :: "Forest \<Rightarrow> nat" where
  "leafCount f = length (filter (\<lambda>m. children m = []) (flattenForest f))"




section \<open>The words of the specification, for comparison\<close>

text \<open>
  The text \<open>q\<close> occurs in \<open>nm\<close>, compared case-insensitively: at some position of \<open>nm\<close>
  there are \<open>length q\<close> characters with the canonical forms of those of \<open>q\<close>.
\<close>

definition occursIn :: "(codeUnit \<Rightarrow> codeUnit list) \<Rightarrow> codeUnit list \<Rightarrow> codeUnit list \<Rightarrow> bool" where
  "occursIn upper q nm =
     (\<exists>k \<in> {0..length nm}.
        length q \<le> length nm - k \<and>
        map (canonicalize upper) (take (length q) (drop k nm)) = map (canonicalize upper) q)"

section \<open>Concrete inputs\<close>

text \<open>The forest \<open>[A[B, C], D]\<close> of the specification's scenarios.\<close>

definition exampleForest :: Forest where
  "exampleForest =
     [TreeNode ''A'' ''Center'' [TreeNode ''B'' ''Moscow'' [], TreeNode ''C'' ''Tver'' []],
      TreeNode ''D'' ''North'' []]"

text \<open>A state around it in which nothing is selected, edited, dragged or open.\<close>

definition exampleState :: AppState where
  "exampleState =
     \<lparr>committedAt = 0, committedGroupName = ''Region'', activeTab = ''Region'',
      groupName = ''Region'', dims = [''Region'', ''City''], forest = exampleForest,
      selectedId = None, panelOpen = False, collapsed = {}, query = [],
      editingGroup = False, groupDraft = ''Region'', editingDimIndex = None, dimDraft = [],
      editingNodeId = None, nodeDraft = [], changeLog = [], justApplied = False,
      deleteDialog = \<lparr>isOpen = False, dialogNodeId = None\<rparr>, reassignTargetId = None,
      drag = None, dropTargetId = None, overlay = None\<rparr>"


text \<open>
  An upper-case table for the examples: that of Unicode on the code units below 128,
  and no change elsewhere.
\<close>

definition asciiUpper :: "codeUnit \<Rightarrow> codeUnit list" where
  "asciiUpper c = (if 97 \<le> c \<and> c \<le> 122 then [c - 32] else [c])"

section \<open>Basic facts\<close>

lemma flattenForest_append [simp]:
  "flattenForest (xs @ ys) = flattenForest xs @ flattenForest ys"
  by (induction xs rule: flattenForest.induct) simp_all

lemma ids_simps [simp]:
  "ids [] = []"
  "ids (TreeNode i nm cs # ns) = i # ids cs @ ids ns"
  "ids (xs @ ys) = ids xs @ ids ys"
  by (simp_all add: ids_def)

lemma ids_Cons: "ids (n # ns) = nid n # ids (children n) @ ids ns"
  by (cases n) simp

lemma ids_member_subset: "c \<in> set cs \<Longrightarrow> set (ids [c]) \<subseteq> set (ids cs)"
  by (induction cs) (auto simp: ids_Cons)

section \<open>The visibility projection ignores stale collapsed ids\<close>

lemma mapNode_cong_ids:
  "(\<And>i. i \<in> set (ids [n]) \<Longrightarrow> (i \<in> S) = (i \<in> T)) \<Longrightarrow> mapNode S n = mapNode T n"
proof (induction n)
  case (TreeNode i nm cs)
  have "mapNode S c = mapNode T c" if "c \<in> set cs" for c
  proof (rule TreeNode.IH [OF that])
    fix j assume "j \<in> set (ids [c])"
    with that ids_member_subset have "j \<in> set (ids cs)" by blast
    then show "(j \<in> S) = (j \<in> T)" using TreeNode.prems by simp
  qed
  moreover have "(i \<in> S) = (i \<in> T)" using TreeNode.prems by simp
  ultimately show ?case by simp
qed

text \<open>
  C10.  For every forest and every set of collapsed ids, the projection is the same as
  the projection under the collapsed ids that occur in the forest: ids in the set that
  name no node of the forest (stale ids left behind by a deletion) do not change the
  projected view.
\<close>

theorem buildVisibleForest_stale_ids:
  "buildVisibleForest F S = buildVisibleForest F (S \<inter> set (ids F))"
  unfolding buildVisibleForest_def
proof (rule map_cong [OF refl])
  fix n assume n: "n \<in> set F"
  show "mapNode S n = mapNode (S \<inter> set (ids F)) n"
    using ids_member_subset [OF n] by (intro mapNode_cong_ids) auto
qed

text \<open>An id that names no node of the forest can be dropped from the collapsed set.\<close>

lemma buildVisibleForest_absent_id:
  assumes "i \<notin> set (ids F)"
  shows "buildVisibleForest F (insert i S) = buildVisibleForest F S"
  unfolding buildVisibleForest_def
proof (rule map_cong [OF refl])
  fix n assume n: "n \<in> set F"
  show "mapNode (insert i S) n = mapNode S n"
    using ids_member_subset [OF n] assms by (intro mapNode_cong_ids) auto
qed

section \<open>The change ledger\<close>

lemma length_sliceLast: "length (sliceLast k xs) \<le> k"
  by (simp add: sliceLast_def)

text \<open>
  C5.  After an append the ledger holds at most 80 entries, whatever it held before;
  appending to a ledger of 80 entries drops its first (oldest) entry and keeps the
  other 79, in order, before the new one; a shorter ledger is only extended.  A commit
  empties the ledger and records the time of the commit and the group label.
\<close>

theorem changeLog_capped_fifo:
  "length (changeLog (addChange u now s st)) \<le> 80
   \<and> (length (changeLog st) = 80 \<longrightarrow>
        changeLog (addChange u now s st)
          = tl (changeLog st) @ [\<lparr>itemId = u, atTime = now, summary = s\<rparr>])
   \<and> (length (changeLog st) < 80 \<longrightarrow>
        changeLog (addChange u now s st)
          = changeLog st @ [\<lparr>itemId = u, atTime = now, summary = s\<rparr>])
   \<and> changeLog (applyChanges t st) = []
   \<and> committedAt (applyChanges t st) = t
   \<and> committedGroupName (applyChanges t st) = groupName st"
proof -
  have "drop (Suc 0) xs = tl xs" for xs :: "ChangeLogItem list"
    by (simp add: drop_Suc)
  then show ?thesis
    by (simp add: addChange_def applyChanges_def sliceLast_def)
qed

theorem changeLog_capped_fifo_witness:
  "length (changeLog (exampleState\<lparr>changeLog := replicate 80 \<lparr>itemId = ''e'', atTime = 1, summary = NodeDeletedWithChildren ''x''\<rparr>\<rparr>)) = 80
   \<and> changeLog (addChange ''f'' 2 (NodeRenamed ''x'' ''y'')
        (exampleState\<lparr>changeLog := replicate 80 \<lparr>itemId = ''e'', atTime = 1, summary = NodeDeletedWithChildren ''x''\<rparr>\<rparr>))
      = replicate 79 \<lparr>itemId = ''e'', atTime = 1, summary = NodeDeletedWithChildren ''x''\<rparr>
          @ [\<lparr>itemId = ''f'', atTime = 2, summary = NodeRenamed ''x'' ''y''\<rparr>]
   \<and> length (changeLog exampleState) < 80
   \<and> changeLog (addChange ''f'' 2 (NodeRenamed ''x'' ''y'') exampleState)
      = [\<lparr>itemId = ''f'', atTime = 2, summary = NodeRenamed ''x'' ''y''\<rparr>]"
  using changeLog_capped_fifo [of "''f''" 2 "NodeRenamed ''x'' ''y''"
      "exampleState\<lparr>changeLog := replicate 80 \<lparr>itemId = ''e'', atTime = 1, summary = NodeDeletedWithChildren ''x''\<rparr>\<rparr>"]
    changeLog_capped_fifo [of "''f''" 2 "NodeRenamed ''x'' ''y''" exampleState]
  by (simp add: exampleState_def)

section \<open>Committing an empty node name\<close>

text \<open>
  C9.  A commit of a node rename whose draft trims to the empty string returns the
  state it was given: the forest and with it every name, the node being edited, the
  draft and the ledger are what they were.
\<close>

theorem commitRenameNode_blank_noop:
  "trim (nodeDraft st) = [] \<Longrightarrow> commitRenameNode u now st = st"
  by (simp add: commitRenameNode_def)

theorem commitRenameNode_blank_noop_witness:
  "trim (nodeDraft (exampleState\<lparr>editingNodeId := Some ''B'', nodeDraft := ''  ''\<rparr>)) = []
   \<and> commitRenameNode ''u'' 5 (exampleState\<lparr>editingNodeId := Some ''B'', nodeDraft := ''  ''\<rparr>)
       = exampleState\<lparr>editingNodeId := Some ''B'', nodeDraft := ''  ''\<rparr>"
proof -
  have h: "trim (nodeDraft (exampleState\<lparr>editingNodeId := Some ''B'', nodeDraft := ''  ''\<rparr>)) = []"
    by (simp add: trim_def isWhiteSpace_def)
  show ?thesis using h commitRenameNode_blank_noop [OF h, of "''u''" 5] by simp
qed

text \<open>A draft that does not trim to the empty string is committed.\<close>

lemma commitRenameNode_example:
  "forest (commitRenameNode ''u'' 5 (exampleState\<lparr>editingNodeId := Some ''B'', nodeDraft := '' Kazan ''\<rparr>))
   = [TreeNode ''A'' ''Center'' [TreeNode ''B'' ''Kazan'' [], TreeNode ''C'' ''Tver'' []],
      TreeNode ''D'' ''North'' []]"
  by (simp add: commitRenameNode_def trim_def isWhiteSpace_def exampleState_def exampleForest_def addChange_def Let_def)

section \<open>Starting a drag\<close>

text \<open>
  C7, as the source has it.  While a node is being renamed or the delete dialog is
  open, a pointer-down on a drag handle returns the state unchanged, so that an idle
  controller stays idle.
\<close>

theorem startDrag_rejected:
  "truthy (editingNodeId st) \<or> isOpen (deleteDialog st) \<Longrightarrow> startDrag i x y st = st"
  by (auto simp add: startDrag_def)

theorem startDrag_rejected_witness:
  "truthy (editingNodeId (exampleState\<lparr>editingNodeId := Some ''B''\<rparr>))
   \<and> startDrag ''C'' 10 20 (exampleState\<lparr>editingNodeId := Some ''B''\<rparr>)
       = exampleState\<lparr>editingNodeId := Some ''B''\<rparr>
   \<and> drag (startDrag ''C'' 10 20 (exampleState\<lparr>editingNodeId := Some ''B''\<rparr>)) = None"
  using startDrag_rejected [of "exampleState\<lparr>editingNodeId := Some ''B''\<rparr>" "''C''" 10 20]
  by (simp add: exampleState_def)

text \<open>
  C7, as the claim has it, fails: while the group name is being renamed (and likewise
  a dimension label), the controller is idle and a pointer-down starts the drag.
\<close>

theorem startDrag_group_rename_counterexample:
  "editingGroup (exampleState\<lparr>editingGroup := True\<rparr>)
   \<and> drag (exampleState\<lparr>editingGroup := True\<rparr>) = None
   \<and> drag (startDrag ''C'' 10 20 (exampleState\<lparr>editingGroup := True\<rparr>))
       = Some \<lparr>draggingId = ''C'', dragX = 10, dragY = 20\<rparr>
   \<and> editingDimIndex (exampleState\<lparr>editingDimIndex := Some 0\<rparr>) = Some 0
   \<and> drag (exampleState\<lparr>editingDimIndex := Some 0\<rparr>) = None
   \<and> drag (startDrag ''C'' 10 20 (exampleState\<lparr>editingDimIndex := Some 0\<rparr>))
       = Some \<lparr>draggingId = ''C'', dragX = 10, dragY = 20\<rparr>"
  by (simp add: startDrag_def exampleState_def)

section \<open>The search matcher\<close>

text \<open>
  The class of the escaper, as the source writes it, is the set of syntax characters
  of the engine's grammar: both lists are gone through, character by character.
\<close>

lemma units_class:
  "units ''.*+?^${}()|[]''
   = [0x2E, 0x2A, 0x2B, 0x3F, 0x5E, 0x24, 0x7B, 0x7D, 0x28, 0x29, 0x7C, 0x5B, 0x5D]"
  by (simp add: units_def)

lemma escapeClass_SyntaxCharacter: "escapeClass = SyntaxCharacter"
  unfolding escapeClass_def SyntaxCharacter_def units_class by auto

lemma escapeRegExp_Cons:
  "escapeRegExp (c # v) =
     (if c \<in> escapeClass then 0x5C # c # escapeRegExp v else c # escapeRegExp v)"
  by (simp add: escapeRegExp_def)

lemma backslash_SyntaxCharacter: "0x5C \<in> SyntaxCharacter"
  by (simp add: SyntaxCharacter_def)

lemma RegExp_escaped_Cons:
  "c \<in> SyntaxCharacter \<Longrightarrow> RegExp (0x5C # c # r) = andThen c (RegExp r)"
  by simp

lemma RegExp_literal_Cons:
  "c \<notin> SyntaxCharacter \<Longrightarrow> RegExp (c # r) = andThen c (RegExp r)"
  using backslash_SyntaxCharacter by (cases r) auto

text \<open>An escaped text compiles, to the literals of the text itself.\<close>

lemma RegExp_escapeRegExp: "RegExp (escapeRegExp v) = Regex v"
proof (induction v)
  case Nil
  show ?case by (simp add: escapeRegExp_def)
next
  case (Cons c v)
  show ?case
  proof (cases "c \<in> SyntaxCharacter")
    case True
    then have "escapeRegExp (c # v) = 0x5C # c # escapeRegExp v"
      by (simp add: escapeRegExp_Cons escapeClass_SyntaxCharacter)
    then show ?thesis using True Cons.IH by (simp add: RegExp_escaped_Cons del: RegExp.simps)
  next
    case False
    then have "escapeRegExp (c # v) = c # escapeRegExp v"
      by (simp add: escapeRegExp_Cons escapeClass_SyntaxCharacter)
    then show ?thesis using False Cons.IH by (simp add: RegExp_literal_Cons del: RegExp.simps)
  qed
qed

text \<open>
  Without the escape the engine does not take the text for literals: the pattern
  \<open>a+b\<close> is none of the patterns that stand for their own characters, and the
  pattern that ends in a backslash does not compile.
\<close>

lemma RegExp_unescaped:
  "RegExp (units ''a+b'') = Unmodelled"
  "RegExp (escapeRegExp (units ''a+b'')) = Regex (units ''a+b'')"
  "RegExp [0x61, 0x5C] = SyntaxError"
  by (simp_all add: RegExp_escapeRegExp) (simp_all add: units_def SyntaxCharacter_def)

text \<open>The definitions that evaluate the matcher on a given query and name.\<close>

lemmas matcher_eval = isMatch_def queryRe_def Let_def escapeRegExp_def escapeClass_def units_def
  SyntaxCharacter_def asciiUpper_def canonicalize_def trimUnits_def isWhiteSpaceUnit_def

lemma matchesAt_iff:
  "matchesAt upper ps cs =
     (length ps \<le> length cs
      \<and> map (canonicalize upper) (take (length ps) cs) = map (canonicalize upper) ps)"
  by (induction upper ps cs rule: matchesAt.induct) auto

lemma test_iff:
  "test upper ps cs = (\<exists>k\<le>length cs. matchesAt upper ps (drop k cs))"
proof (induction cs)
  case Nil
  show ?case by simp
next
  case (Cons c cs)
  have "(\<exists>k\<le>length (c # cs). matchesAt upper ps (drop k (c # cs)))
        = (matchesAt upper ps (c # cs) \<or> (\<exists>k\<le>length cs. matchesAt upper ps (drop k cs)))"
  proof
    assume "\<exists>k\<le>length (c # cs). matchesAt upper ps (drop k (c # cs))"
    then obtain k where k: "k \<le> length (c # cs)" "matchesAt upper ps (drop k (c # cs))" by blast
    show "matchesAt upper ps (c # cs) \<or> (\<exists>k\<le>length cs. matchesAt upper ps (drop k cs))"
    proof (cases k)
      case 0
      with k show ?thesis by simp
    next
      case (Suc j)
      with k have "j \<le> length cs" "matchesAt upper ps (drop j cs)" by simp_all
      then show ?thesis by blast
    qed
  next
    assume "matchesAt upper ps (c # cs) \<or> (\<exists>k\<le>length cs. matchesAt upper ps (drop k cs))"
    then show "\<exists>k\<le>length (c # cs). matchesAt upper ps (drop k (c # cs))"
    proof
      assume "matchesAt upper ps (c # cs)"
      then have "matchesAt upper ps (drop 0 (c # cs))" by simp
      then show ?thesis by blast
    next
      assume "\<exists>k\<le>length cs. matchesAt upper ps (drop k cs)"
      then obtain k where "k \<le> length cs" "matchesAt upper ps (drop k cs)" by blast
      then have "Suc k \<le> length (c # cs)" "matchesAt upper ps (drop (Suc k) (c # cs))"
        by simp_all
      then show ?thesis by blast
    qed
  qed
  with Cons.IH show ?case by simp
qed

lemma test_occursIn: "test upper ps cs = occursIn upper ps cs"
  unfolding test_iff occursIn_def matchesAt_iff by auto

lemma trimUnits_whitespace_only:
  assumes "\<forall>c\<in>set q. isWhiteSpaceUnit c"
  shows "trimUnits q = []"
  using assms by (auto simp: trimUnits_def dest: set_dropWhileD)

text \<open>
  C8, as the source has it.  Whatever the upper-case table and whatever code units
  the query and the name hold, the predicate has a value, and it matches the name
  exactly when the query, with the white space at its two ends removed, is not empty
  and occurs in the name as literal text compared case-insensitively; for a query that
  is empty or only white space it matches no name.
\<close>

theorem isMatch_literal_trimmed:
  "isMatch upper q nm = Some (trimUnits q \<noteq> [] \<and> occursIn upper (trimUnits q) nm)
   \<and> ((\<forall>c\<in>set q. isWhiteSpaceUnit c) \<longrightarrow> isMatch upper q nm = Some False)"
proof -
  have "isMatch upper q nm = Some (trimUnits q \<noteq> [] \<and> occursIn upper (trimUnits q) nm)"
    by (simp add: isMatch_def queryRe_def Let_def RegExp_escapeRegExp test_occursIn)
  then show ?thesis using trimUnits_whitespace_only [of q] by simp
qed

theorem isMatch_literal_trimmed_witness:
  "isMatch asciiUpper (units ''a+b(c)'') (units ''xA+B(C)y'') = Some True
   \<and> trimUnits (units ''a+b(c)'') = units ''a+b(c)''
   \<and> occursIn asciiUpper (units ''a+b(c)'') (units ''xA+B(C)y'')
   \<and> isMatch asciiUpper (units ''a+b(c)'') (units ''aab(c)'') = Some False
   \<and> isMatch asciiUpper [0x20, 0x09, 0x3000] (units ''xA+B(C)y'') = Some False
   \<and> isMatch asciiUpper [] (units ''xA+B(C)y'') = Some False"
proof -
  have t: "trimUnits (units ''a+b(c)'') = units ''a+b(c)''" by (simp add: matcher_eval)
  have m: "isMatch asciiUpper (units ''a+b(c)'') (units ''xA+B(C)y'') = Some True"
    by (simp add: matcher_eval)
  have n: "isMatch asciiUpper (units ''a+b(c)'') (units ''aab(c)'') = Some False"
    by (simp add: matcher_eval)
  have w: "\<forall>c\<in>set [0x20, 0x09, 0x3000]. isWhiteSpaceUnit c" by (simp add: isWhiteSpaceUnit_def)
  have e: "\<forall>c\<in>set ([] :: codeUnit list). isWhiteSpaceUnit c" by simp
  have o: "occursIn asciiUpper (units ''a+b(c)'') (units ''xA+B(C)y'')"
    using isMatch_literal_trimmed [of asciiUpper "units ''a+b(c)''" "units ''xA+B(C)y''"] m t
    by simp
  have b: "isMatch asciiUpper [0x20, 0x09, 0x3000] (units ''xA+B(C)y'') = Some False"
    using isMatch_literal_trimmed [of asciiUpper "[0x20, 0x09, 0x3000]" "units ''xA+B(C)y''"] w
    by blast
  have c: "isMatch asciiUpper [] (units ''xA+B(C)y'') = Some False"
    using isMatch_literal_trimmed [of asciiUpper "[]" "units ''xA+B(C)y''"] e by blast
  show ?thesis using t m n o b c by blast
qed

text \<open>
  C8, as the claim has it, fails for a query with white space at an end: the query
  \<open>'' a''\<close> matches the name \<open>''ba''\<close>, in which the text \<open>'' a''\<close> does not occur.
\<close>

theorem isMatch_untrimmed_counterexample:
  "isMatch asciiUpper (units '' a'') (units ''ba'') = Some True
   \<and> \<not> occursIn asciiUpper (units '' a'') (units ''ba'')"
proof -
  have "isMatch asciiUpper (units '' a'') (units ''ba'') = Some True"
    by (simp add: matcher_eval)
  moreover have "\<not> occursIn asciiUpper (units '' a'') (units ''ba'')"
    unfolding test_occursIn [symmetric] by (simp add: matcher_eval)
  ultimately show ?thesis by simp
qed

text \<open>
  The same holds with any upper-case table, the name \<open>''a''\<close> being shorter than the
  query \<open>'' a''\<close>.
\<close>

lemma isMatch_untrimmed_any_table:
  "isMatch upper (units '' a'') (units ''a'') = Some True"
  "\<not> occursIn upper (units '' a'') (units ''a'')"
proof -
  have t: "trimUnits (units '' a'') = units ''a''"
    by (simp add: trimUnits_def units_def isWhiteSpaceUnit_def)
  have "units ''a'' \<noteq> []" by (simp add: units_def)
  moreover have "occursIn upper (units ''a'') (units ''a'')"
    unfolding test_occursIn [symmetric] by (simp add: units_def)
  ultimately show "isMatch upper (units '' a'') (units ''a'') = Some True"
    by (simp add: isMatch_def queryRe_def Let_def RegExp_escapeRegExp test_occursIn t)
  show "\<not> occursIn upper (units '' a'') (units ''a'')"
    by (auto simp: occursIn_def units_def)
qed

section \<open>References to a deleted node\<close>

text \<open>
  The state in which node \<open>A\<close> is selected and its deletion has been requested from
  the side panel, with \<open>D\<close> chosen as the node that takes over the children.
\<close>

lemma reassign_example_forest:
  "forest (confirmReassignChildren ''u'' 7
      (exampleState\<lparr>selectedId := Some ''A'', panelOpen := True,
         deleteDialog := \<lparr>isOpen = True, dialogNodeId = Some ''A''\<rparr>,
         reassignTargetId := Some ''D''\<rparr>))
   = [TreeNode ''D'' ''North'' [TreeNode ''B'' ''Moscow'' [], TreeNode ''C'' ''Tver'' []]]"
  by (simp add: confirmReassignChildren_def exampleState_def exampleForest_def
      isDescendant_def findNodeAndParent_def addChange_def closeDeleteDialog_def)

text \<open>
  \<open>confirmReassignChildren\<close> writes the forest, the delete dialog, the chosen target and
  the ledger, and nothing else: what is selected, edited, overlaid or collapsed stays.
\<close>

lemma confirmReassignChildren_keeps_references:
  "selectedId (confirmReassignChildren u now st) = selectedId st"
  "editingNodeId (confirmReassignChildren u now st) = editingNodeId st"
  "overlay (confirmReassignChildren u now st) = overlay st"
  "collapsed (confirmReassignChildren u now st) = collapsed st"
  by (simp_all add: confirmReassignChildren_def addChange_def closeDeleteDialog_def
      split: option.splits prod.splits)

text \<open>
  C6 fails on the source.  \<open>deleteNodeAndChildren\<close> clears the selection, the edited
  node and the overlay when they are the deleted node, but \<open>confirmReassignChildren\<close>
  clears none of them: after the reassign-delete of the selected node \<open>A\<close> the selection
  still names \<open>A\<close>, which is no longer in the forest.  The cascade clears them only for
  the deleted node itself: with \<open>B\<close> selected, the cascade delete of its parent \<open>A\<close>
  leaves the selection on \<open>B\<close>, which is gone with \<open>A\<close>.
\<close>

theorem deletion_leaves_dangling_selection:
  "selectedId (confirmReassignChildren ''u'' 7
      (exampleState\<lparr>selectedId := Some ''A'', panelOpen := True,
         deleteDialog := \<lparr>isOpen = True, dialogNodeId = Some ''A''\<rparr>,
         reassignTargetId := Some ''D''\<rparr>)) = Some ''A''
   \<and> ''A'' \<notin> set (ids (forest (confirmReassignChildren ''u'' 7
      (exampleState\<lparr>selectedId := Some ''A'', panelOpen := True,
         deleteDialog := \<lparr>isOpen = True, dialogNodeId = Some ''A''\<rparr>,
         reassignTargetId := Some ''D''\<rparr>))))
   \<and> selectedId (confirmDeleteWithChildren ''u'' 7
      (exampleState\<lparr>selectedId := Some ''B'', panelOpen := True,
         deleteDialog := \<lparr>isOpen = True, dialogNodeId = Some ''A''\<rparr>\<rparr>)) = Some ''B''
   \<and> ''B'' \<notin> set (ids (forest (confirmDeleteWithChildren ''u'' 7
      (exampleState\<lparr>selectedId := Some ''B'', panelOpen := True,
         deleteDialog := \<lparr>isOpen = True, dialogNodeId = Some ''A''\<rparr>\<rparr>))))
   \<and> selectedId (confirmDeleteWithChildren ''u'' 7
      (exampleState\<lparr>selectedId := Some ''A'', panelOpen := True,
         deleteDialog := \<lparr>isOpen = True, dialogNodeId = Some ''A''\<rparr>\<rparr>)) = None"
  by (simp add: confirmReassignChildren_def confirmDeleteWithChildren_def
      deleteNodeAndChildren_def exampleState_def exampleForest_def
      isDescendant_def findNodeAndParent_def addChange_def closeDeleteDialog_def Let_def)

theorem deletion_leaves_dangling_selection_witness:
  "selectedId (confirmReassignChildren ''u'' 7
      (exampleState\<lparr>selectedId := Some ''A'', panelOpen := True,
         deleteDialog := \<lparr>isOpen = True, dialogNodeId = Some ''A''\<rparr>,
         reassignTargetId := Some ''D''\<rparr>)) = Some ''A''
   \<and> forest (confirmReassignChildren ''u'' 7
      (exampleState\<lparr>selectedId := Some ''A'', panelOpen := True,
         deleteDialog := \<lparr>isOpen = True, dialogNodeId = Some ''A''\<rparr>,
         reassignTargetId := Some ''D''\<rparr>))
     = [TreeNode ''D'' ''North'' [TreeNode ''B'' ''Moscow'' [], TreeNode ''C'' ''Tver'' []]]"
  using deletion_leaves_dangling_selection reassign_example_forest by simp

section \<open>Searching a forest with distinct ids\<close>

lemma nid_in_ids: "n \<in> set (flattenForest F) \<Longrightarrow> nid n \<in> set (ids F)"
  by (simp add: ids_def)

lemma flattenForest_children_subset:
  "n \<in> set (flattenForest F) \<Longrightarrow> set (flattenForest (children n)) \<subseteq> set (flattenForest F)"
  by (induction F rule: flattenForest.induct) auto

lemma ids_subtree_subset:
  "n \<in> set (flattenForest F) \<Longrightarrow> set (ids [n]) \<subseteq> set (ids F)"
  by (induction F rule: flattenForest.induct) auto

lemma findNodeAndParent_dfs_None_iff:
  "(findNodeAndParent_dfs i F p = None) = (i \<notin> set (ids F))"
  by (induction i F p rule: findNodeAndParent_dfs.induct) (auto split: option.splits)

lemma isDescendant_dfs_iff: "isDescendant_dfs d F = (d \<in> set (ids F))"
  by (induction d F rule: isDescendant_dfs.induct) auto

text \<open>In a forest with distinct ids the search for the id of a node finds that node.\<close>

lemma findNodeAndParent_dfs_finds:
  "distinct (ids F) \<Longrightarrow> n \<in> set (flattenForest F) \<Longrightarrow>
   \<exists>q. findNodeAndParent_dfs (nid n) F p = Some (q, n)"
proof (induction "nid n" F p rule: findNodeAndParent_dfs.induct)
  case (1 p)
  then show ?case by simp
next
  case (2 a nm cs ns p)
  show ?case
  proof (cases "a = nid n")
    case True
    have "n \<notin> set (flattenForest cs)" "n \<notin> set (flattenForest ns)"
      using "2.prems"(1) True nid_in_ids by auto
    with "2.prems"(2) have "n = TreeNode a nm cs" by simp
    with True show ?thesis by simp
  next
    case False
    show ?thesis
    proof (cases "n \<in> set (flattenForest cs)")
      case True
      with "2.hyps"(1) [OF False] "2.prems"(1)
      obtain q where "findNodeAndParent_dfs (nid n) cs (Some (TreeNode a nm cs)) = Some (q, n)"
        by auto
      with False show ?thesis by simp
    next
      case notcs: False
      with "2.prems"(2) False have ns: "n \<in> set (flattenForest ns)" by auto
      then have "nid n \<notin> set (ids cs)" using "2.prems"(1) nid_in_ids by auto
      then have none: "findNodeAndParent_dfs (nid n) cs (Some (TreeNode a nm cs)) = None"
        by (simp add: findNodeAndParent_dfs_None_iff)
      from "2.hyps"(2) [OF False none ] "2.prems"(1) ns
      obtain q where "findNodeAndParent_dfs (nid n) ns p = Some (q, n)" by auto
      with False none show ?thesis by simp
    qed
  qed
qed

lemma findNodeAndParent_finds:
  "distinct (ids F) \<Longrightarrow> n \<in> set (flattenForest F) \<Longrightarrow> snd (findNodeAndParent F (nid n)) = Some n"
  using findNodeAndParent_dfs_finds [of F n None]
  by (auto simp: findNodeAndParent_def)

lemma isDescendant_iff:
  "distinct (ids F) \<Longrightarrow> n \<in> set (flattenForest F) \<Longrightarrow>
   isDescendant F (nid n) d = (d \<in> set (ids (children n)))"
  by (simp add: isDescendant_def findNodeAndParent_finds isDescendant_dfs_iff)

section \<open>The edits act on the node that the search finds\<close>

text \<open>
  Each edit finds a node exactly when \<open>findNodeAndParent\<close> does, and the node that
  \<open>detachNode\<close> takes out is the node that \<open>findNodeAndParent\<close> returns.
\<close>

lemma detachNode_dfs_None_iff: "(detachNode_dfs i F = None) = (i \<notin> set (ids F))"
  by (induction i F rule: detachNode_dfs.induct) (auto split: option.splits)

lemma renameNode_None_iff: "(renameNode i new F = None) = (i \<notin> set (ids F))"
  by (induction i new F rule: renameNode.induct) (auto split: option.splits)

lemma detachNode_dfs_found:
  "detachNode_dfs i F = Some (F', d) \<Longrightarrow> \<exists>q. findNodeAndParent_dfs i F p = Some (q, d)"
proof (induction i F arbitrary: F' p rule: detachNode_dfs.induct)
  case (1 i)
  then show ?case by simp
next
  case (2 i a nm cs ns)
  show ?case
  proof (cases "a = i")
    case True
    with "2.prems" show ?thesis by auto
  next
    case False
    show ?thesis
    proof (cases "detachNode_dfs i cs")
      case None
      then have "findNodeAndParent_dfs i cs (Some (TreeNode a nm cs)) = None"
        by (simp add: detachNode_dfs_None_iff findNodeAndParent_dfs_None_iff)
      moreover from "2.prems" False None obtain ns' where "detachNode_dfs i ns = Some (ns', d)"
        by (auto split: option.splits)
      from "2.IH"(2) [OF False None this, of p]
      obtain q where "findNodeAndParent_dfs i ns p = Some (q, d)" by blast
      ultimately show ?thesis using False by simp
    next
      case (Some r)
      obtain cs' d' where r: "r = (cs', d')" by (cases r)
      with "2.prems" False Some have "d' = d" by simp
      with "2.IH"(1) [OF False, of cs' "Some (TreeNode a nm cs)"] Some r
      obtain q where "findNodeAndParent_dfs i cs (Some (TreeNode a nm cs)) = Some (q, d)" by auto
      with False show ?thesis by simp
    qed
  qed
qed

lemma detachNode_found:
  "detachNode F i = (F', Some d) \<Longrightarrow> snd (findNodeAndParent F i) = Some d"
  using detachNode_dfs_found [of i F _ d None]
  by (auto simp: detachNode_def findNodeAndParent_def split: option.splits)

section \<open>Moves and reassignments that would make a cycle\<close>

text \<open>
  C1.  In a forest with distinct ids (the invariant of the data model), let \<open>n\<close> be a
  node of the forest and the target \<open>t\<close> the id of \<open>n\<close> itself or of a node below \<open>n\<close>.
  Then \<open>moveNodeAsChild\<close> returns the forest it was given and reports no move, the
  pointer-up that ends such a drag leaves the forest and the ledger as they were, and
  \<open>confirmReassignChildren\<close> returns the state it was given: the check comes before any
  update, nothing is applied and undone.
\<close>

theorem cycle_rejected:
  assumes "distinct (ids F)" and "n \<in> set (flattenForest F)"
    and "t = nid n \<or> t \<in> set (ids (children n))"
    and "forest st = F"
    and "dialogNodeId (deleteDialog st) = Some (nid n)"
    and "reassignTargetId st = Some t"
  shows "moveNodeAsChild F (nid n) t = (F, False)
     \<and> forest (finishDrag u now (Some t) (nid n) st) = F
     \<and> changeLog (finishDrag u now (Some t) (nid n) st) = changeLog st
     \<and> confirmReassignChildren u now st = st"
proof -
  have d: "t \<noteq> nid n \<Longrightarrow> isDescendant F (nid n) t"
    using assms(1-3) by (simp add: isDescendant_iff)
  then have m: "moveNodeAsChild F (nid n) t = (F, False)"
    by (auto simp: moveNodeAsChild_def)
  have f: "forest (finishDrag u now (Some t) (nid n) st) = F"
    using m assms(4) by (simp add: finishDrag_def)
  have c: "changeLog (finishDrag u now (Some t) (nid n) st) = changeLog st"
    using m assms(4) by (simp add: finishDrag_def)
  have r: "confirmReassignChildren u now st = st"
    using d assms(4-6) by (auto simp: confirmReassignChildren_def)
  from m f c r show ?thesis by simp
qed

lemma exampleForest_ids: "ids exampleForest = [''A'', ''B'', ''C'', ''D'']"
  by (simp add: exampleForest_def)

theorem cycle_rejected_witness:
  "distinct (ids exampleForest)
   \<and> TreeNode ''A'' ''Center'' [TreeNode ''B'' ''Moscow'' [], TreeNode ''C'' ''Tver'' []]
        \<in> set (flattenForest exampleForest)
   \<and> moveNodeAsChild exampleForest ''A'' ''B'' = (exampleForest, False)
   \<and> confirmReassignChildren ''u'' 3
        (exampleState\<lparr>deleteDialog := \<lparr>isOpen = True, dialogNodeId = Some ''A''\<rparr>,
           reassignTargetId := Some ''B''\<rparr>)
      = exampleState\<lparr>deleteDialog := \<lparr>isOpen = True, dialogNodeId = Some ''A''\<rparr>,
           reassignTargetId := Some ''B''\<rparr>
   \<and> moveNodeAsChild exampleForest ''A'' ''A'' = (exampleForest, False)"
proof -
  let ?n = "TreeNode ''A'' ''Center'' [TreeNode ''B'' ''Moscow'' [], TreeNode ''C'' ''Tver'' []]"
  let ?st = "exampleState\<lparr>deleteDialog := \<lparr>isOpen = True, dialogNodeId = Some ''A''\<rparr>,
           reassignTargetId := Some ''B''\<rparr>"
  let ?st' = "exampleState\<lparr>deleteDialog := \<lparr>isOpen = True, dialogNodeId = Some ''A''\<rparr>,
           reassignTargetId := Some ''A''\<rparr>"
  have h1: "distinct (ids exampleForest)" by (simp add: exampleForest_ids)
  have h2: "?n \<in> set (flattenForest exampleForest)" by (simp add: exampleForest_def)
  have h3: "''B'' = nid ?n \<or> ''B'' \<in> set (ids (children ?n))" by simp
  have h3': "''A'' = nid ?n \<or> ''A'' \<in> set (ids (children ?n))" by simp
  have h4: "forest ?st = exampleForest" by (simp add: exampleState_def)
  have h5: "dialogNodeId (deleteDialog ?st) = Some (nid ?n)" by simp
  have h6: "reassignTargetId ?st = Some ''B''" by simp
  have h4': "forest ?st' = exampleForest" by (simp add: exampleState_def)
  have h5': "dialogNodeId (deleteDialog ?st') = Some (nid ?n)" by simp
  have h6': "reassignTargetId ?st' = Some ''A''" by simp
  show ?thesis
    using h1 h2 cycle_rejected [OF h1 h2 h3 h4 h5 h6, of "''u''" 3]
      cycle_rejected [OF h1 h2 h3' h4' h5' h6', of "''u''" 3]
    by simp
qed

section \<open>Removing a node\<close>

lemma prune_absent: "i \<notin> set (ids F) \<Longrightarrow> prune i F = F"
  by (induction i F rule: prune.induct) auto

lemma roots_in_ids: "c \<in> set F \<Longrightarrow> nid c \<in> set (ids F)"
  by (induction F) (auto simp: ids_Cons)

lemma filter_roots_absent: "i \<notin> set (ids F) \<Longrightarrow> filter (\<lambda>c. nid c \<noteq> i) F = F"
  using roots_in_ids by (auto simp: filter_id_conv)

lemma removeUnderParent_None_iff: "(removeUnderParent i F = None) = (i \<notin> set (ids F))"
  by (induction i F rule: removeUnderParent.induct) (auto split: option.splits)

text \<open>
  Where the id occurs at most once, the removal of the source is \<open>prune\<close>.
\<close>

lemma removeUnderParent_prune:
  "count_list (ids F) i \<le> 1 \<Longrightarrow> i \<in> set (ids F) \<Longrightarrow> removeUnderParent i F = Some (prune i F)"
proof (induction i F rule: removeUnderParent.induct)
  case (1 i)
  then show ?case by simp
next
  case (2 i a nm cs ns)
  show ?case
  proof (cases "a = i")
    case True
    with "2.prems"(1) have "count_list (ids cs) i = 0" "count_list (ids ns) i = 0" by auto
    then have "i \<notin> set (ids cs)" "i \<notin> set (ids ns)" by (simp_all add: count_list_0_iff)
    with True show ?thesis by (simp add: prune_absent filter_roots_absent)
  next
    case False
    show ?thesis
    proof (cases "i \<in> set (ids cs)")
      case True
      then have "count_list (ids cs) i \<noteq> 0" by (simp add: count_list_0_iff)
      with "2.prems"(1) False have c: "count_list (ids cs) i \<le> 1" "count_list (ids ns) i = 0" by auto
      then have "i \<notin> set (ids ns)" by (simp add: count_list_0_iff)
      with "2.IH"(1) [OF False c(1) True] False show ?thesis by (simp add: prune_absent)
    next
      case nocs: False
      with "2.prems"(2) False have ns: "i \<in> set (ids ns)" by auto
      from nocs have none: "removeUnderParent i cs = None" by (simp add: removeUnderParent_None_iff)
      from "2.prems"(1) False have "count_list (ids ns) i \<le> 1" by auto
      with "2.IH"(2) [OF False none] ns False none nocs show ?thesis by (simp add: prune_absent)
    qed
  qed
qed

lemma removeNode_prune:
  "count_list (ids F) i \<le> 1 \<Longrightarrow> removeNode i F = prune i F"
proof (induction i F rule: removeNode.induct)
  case (1 i)
  then show ?case by simp
next
  case (2 i a nm cs ns)
  show ?case
  proof (cases "a = i")
    case True
    with "2.prems" have "count_list (ids ns) i = 0" by auto
    then have "i \<notin> set (ids ns)" by (simp add: count_list_0_iff)
    with True show ?thesis by (simp add: prune_absent)
  next
    case False
    show ?thesis
    proof (cases "i \<in> set (ids cs)")
      case True
      then have "count_list (ids cs) i \<noteq> 0" by (simp add: count_list_0_iff)
      with "2.prems" False have c: "count_list (ids cs) i \<le> 1" "count_list (ids ns) i = 0" by auto
      then have "i \<notin> set (ids ns)" by (simp add: count_list_0_iff)
      with removeUnderParent_prune [OF c(1) True] False show ?thesis by (simp add: prune_absent)
    next
      case nocs: False
      then have none: "removeUnderParent i cs = None" by (simp add: removeUnderParent_None_iff)
      from "2.prems" False have "count_list (ids ns) i \<le> 1" by auto
      with "2.IH" [OF False none] False none nocs show ?thesis by (simp add: prune_absent)
    qed
  qed
qed

lemma distinct_count_le_1: "distinct xs \<Longrightarrow> count_list xs i \<le> 1"
  by (induction xs) (auto simp: count_list_0_iff)

lemma filter_disjoint_id: "set xs \<inter> S = {} \<Longrightarrow> filter (\<lambda>j. j \<notin> S) xs = xs"
  by (auto simp: filter_id_conv)

lemma prune_roots: "map nid (prune i F) = filter (\<lambda>j. j \<noteq> i) (map nid F)"
  by (induction i F rule: prune.induct) auto

lemma prune_nodes:
  "m' \<in> set (flattenForest (prune i F)) \<Longrightarrow>
   \<exists>m \<in> set (flattenForest F). nid m = nid m' \<and> name m = name m' \<and> children m' = prune i (children m)"
  by (induction i F rule: prune.induct) (auto split: if_splits)

text \<open>In a forest with distinct ids, a node with a given id is that node.\<close>

lemma distinct_ids_node_eq:
  "distinct (ids F) \<Longrightarrow> n \<in> set (flattenForest F) \<Longrightarrow> m \<in> set (flattenForest F) \<Longrightarrow>
   nid m = nid n \<Longrightarrow> m = n"
  using findNodeAndParent_finds [of F n] findNodeAndParent_finds [of F m] by simp

lemma prune_ids:
  "distinct (ids F) \<Longrightarrow> n \<in> set (flattenForest F) \<Longrightarrow>
   ids (prune (nid n) F) = filter (\<lambda>j. j \<notin> set (ids [n])) (ids F)"
proof (induction F rule: flattenForest.induct)
  case 1
  then show ?case by simp
next
  case (2 a nm cs ns)
  let ?x = "TreeNode a nm cs"
  from "2.prems"(1) have d: "distinct (ids cs)" "distinct (ids ns)" "a \<notin> set (ids cs)"
    "a \<notin> set (ids ns)" "set (ids cs) \<inter> set (ids ns) = {}" by auto
  consider (here) "n = ?x" | (below) "n \<noteq> ?x" "n \<in> set (flattenForest cs)"
    | (later) "n \<noteq> ?x" "n \<in> set (flattenForest ns)"
    using "2.prems"(2) by auto
  then show ?case
  proof cases
    case here
    have "set (ids ns) \<inter> set (ids [n]) = {}" using here d by auto
    then have "filter (\<lambda>j. j \<notin> set (ids [n])) (ids ns) = ids ns" by (rule filter_disjoint_id)
    moreover have "filter (\<lambda>j. j \<notin> set (ids [n])) (ids cs) = []" using here by (auto simp: filter_empty_conv)
    ultimately show ?thesis using here d by (simp add: prune_absent)
  next
    case below
    have sub: "set (ids [n]) \<subseteq> set (ids cs)" using below(2) by (rule ids_subtree_subset)
    then have an: "a \<noteq> nid n" "nid n \<notin> set (ids ns)" "a \<notin> set (ids [n])" using d by (auto simp: ids_Cons)
    have "set (ids ns) \<inter> set (ids [n]) = {}" using sub d by auto
    then have "filter (\<lambda>j. j \<notin> set (ids [n])) (ids ns) = ids ns" by (rule filter_disjoint_id)
    with "2.IH"(1) [OF d(1) below(2)] an show ?thesis by (simp add: prune_absent)
  next
    case later
    have sub: "set (ids [n]) \<subseteq> set (ids ns)" using later(2) by (rule ids_subtree_subset)
    then have an: "a \<noteq> nid n" "nid n \<notin> set (ids cs)" "a \<notin> set (ids [n])" using d by (auto simp: ids_Cons)
    have "set (ids cs) \<inter> set (ids [n]) = {}" using sub d by auto
    then have "filter (\<lambda>j. j \<notin> set (ids [n])) (ids cs) = ids cs" by (rule filter_disjoint_id)
    with "2.IH"(2) [OF d(2) later(2)] an show ?thesis by (simp add: prune_absent)
  qed
qed

lemma prune_keeps:
  "distinct (ids F) \<Longrightarrow> n \<in> set (flattenForest F) \<Longrightarrow> m \<in> set (flattenForest F) \<Longrightarrow>
   nid m \<notin> set (ids [n]) \<Longrightarrow> nid n \<notin> set (ids [m]) \<Longrightarrow>
   m \<in> set (flattenForest (prune (nid n) F))"
proof (induction F rule: flattenForest.induct)
  case 1
  then show ?case by simp
next
  case (2 a nm cs ns)
  let ?x = "TreeNode a nm cs"
  from "2.prems"(1) have d: "distinct (ids cs)" "distinct (ids ns)" "a \<notin> set (ids cs)"
    "a \<notin> set (ids ns)" "set (ids cs) \<inter> set (ids ns) = {}" by auto
  consider (here) "n = ?x" | (below) "n \<noteq> ?x" "n \<in> set (flattenForest cs)"
    | (later) "n \<noteq> ?x" "n \<in> set (flattenForest ns)"
    using "2.prems"(2) by auto
  then show ?case
  proof cases
    case here
    have "m \<noteq> ?x" using "2.prems"(4) here by auto
    moreover have "m \<notin> set (flattenForest cs)" using "2.prems"(4) here nid_in_ids by auto
    ultimately have "m \<in> set (flattenForest ns)" using "2.prems"(3) by auto
    then show ?thesis using here d by (simp add: prune_absent)
  next
    case below
    have sub: "set (ids [n]) \<subseteq> set (ids cs)" using below(2) by (rule ids_subtree_subset)
    then have an: "a \<noteq> nid n" "nid n \<notin> set (ids ns)" using d by (auto simp: ids_Cons)
    have "m \<noteq> ?x" using "2.prems"(5) sub by (auto simp: ids_Cons)
    then consider "m \<in> set (flattenForest cs)" | "m \<in> set (flattenForest ns)"
      using "2.prems"(3) by auto
    then show ?thesis
    proof cases
      case 1
      from "2.IH"(1) [OF d(1) below(2) 1 "2.prems"(4,5)] an show ?thesis by simp
    next
      case 2
      with an show ?thesis by (simp add: prune_absent)
    qed
  next
    case later
    have sub: "set (ids [n]) \<subseteq> set (ids ns)" using later(2) by (rule ids_subtree_subset)
    then have an: "a \<noteq> nid n" "nid n \<notin> set (ids cs)" using d by (auto simp: ids_Cons)
    consider "m = ?x" | "m \<in> set (flattenForest cs)" | "m \<in> set (flattenForest ns)"
      using "2.prems"(3) by auto
    then show ?thesis
    proof cases
      case 1
      with an show ?thesis by (simp add: prune_absent)
    next
      case 2
      with an show ?thesis by (simp add: prune_absent)
    next
      case 3
      from "2.IH"(2) [OF d(2) later(2) 3 "2.prems"(4,5)] an show ?thesis by simp
    qed
  qed
qed

section \<open>Cascade delete\<close>

lemma forest_addChange [simp]: "forest (addChange u now s st) = forest st"
  by (simp add: addChange_def)

lemma forest_deleteNodeAndChildren:
  "forest (deleteNodeAndChildren u now i st) = removeNode i (forest st)"
  by (simp add: deleteNodeAndChildren_def Let_def)

text \<open>
  C3.  In a forest with distinct ids, the cascade delete of a node \<open>n\<close> of the forest
  leaves a forest whose ids are, in the same preorder, the ids of the old forest that
  are not ids of the subtree of \<open>n\<close>: exactly \<open>n\<close> and the nodes below it disappear.  The
  roots that survive keep their order.  Every node of the new forest is a node of the
  old one with the same id, the same name and the same children in the same order,
  \<open>n\<close> left out where it was one of them; and every old node that is outside the subtree
  of \<open>n\<close> and does not have \<open>n\<close> in its own subtree is in the new forest as it was.
\<close>

theorem cascade_delete_exact:
  assumes "distinct (ids (forest st))" and "n \<in> set (flattenForest (forest st))"
  shows "ids (forest (deleteNodeAndChildren u now (nid n) st))
           = filter (\<lambda>j. j \<notin> set (ids [n])) (ids (forest st))
     \<and> map nid (forest (deleteNodeAndChildren u now (nid n) st))
           = filter (\<lambda>j. j \<noteq> nid n) (map nid (forest st))
     \<and> (\<forall>m' \<in> set (flattenForest (forest (deleteNodeAndChildren u now (nid n) st))).
           \<exists>m \<in> set (flattenForest (forest st)).
             nid m = nid m' \<and> name m = name m'
             \<and> map nid (children m') = filter (\<lambda>j. j \<noteq> nid n) (map nid (children m)))
     \<and> (\<forall>m \<in> set (flattenForest (forest st)).
           nid m \<notin> set (ids [n]) \<and> nid n \<notin> set (ids [m])
           \<longrightarrow> m \<in> set (flattenForest (forest (deleteNodeAndChildren u now (nid n) st))))"
proof -
  let ?F = "forest st"
  have eq: "forest (deleteNodeAndChildren u now (nid n) st) = prune (nid n) ?F"
    using removeNode_prune [OF distinct_count_le_1 [OF assms(1)]]
    by (simp add: forest_deleteNodeAndChildren)
  have a: "ids (prune (nid n) ?F) = filter (\<lambda>j. j \<notin> set (ids [n])) (ids ?F)"
    using assms by (rule prune_ids)
  have b: "map nid (prune (nid n) ?F) = filter (\<lambda>j. j \<noteq> nid n) (map nid ?F)"
    by (rule prune_roots)
  have c: "\<exists>m \<in> set (flattenForest ?F). nid m = nid m' \<and> name m = name m'
             \<and> map nid (children m') = filter (\<lambda>j. j \<noteq> nid n) (map nid (children m))"
    if "m' \<in> set (flattenForest (prune (nid n) ?F))" for m'
  proof -
    from prune_nodes [OF that] obtain m where m: "m \<in> set (flattenForest ?F)"
      "nid m = nid m'" "name m = name m'" "children m' = prune (nid n) (children m)" by blast
    from m(4) have "map nid (children m') = filter (\<lambda>j. j \<noteq> nid n) (map nid (children m))"
      by (simp add: prune_roots)
    with m show ?thesis by blast
  qed
  have d: "m \<in> set (flattenForest (prune (nid n) ?F))"
    if "m \<in> set (flattenForest ?F)" "nid m \<notin> set (ids [n])" "nid n \<notin> set (ids [m])" for m
    using assms that by (rule prune_keeps)
  from a b c d show ?thesis unfolding eq by blast
qed

theorem cascade_delete_exact_witness:
  "distinct (ids (forest exampleState))
   \<and> TreeNode ''A'' ''Center'' [TreeNode ''B'' ''Moscow'' [], TreeNode ''C'' ''Tver'' []]
        \<in> set (flattenForest (forest exampleState))
   \<and> ids (forest (deleteNodeAndChildren ''u'' 3 ''A'' exampleState)) = [''D'']
   \<and> map nid (forest (deleteNodeAndChildren ''u'' 3 ''A'' exampleState)) = [''D'']
   \<and> TreeNode ''D'' ''North'' []
        \<in> set (flattenForest (forest (deleteNodeAndChildren ''u'' 3 ''A'' exampleState)))"
proof -
  let ?n = "TreeNode ''A'' ''Center'' [TreeNode ''B'' ''Moscow'' [], TreeNode ''C'' ''Tver'' []]"
  have f: "forest exampleState = exampleForest" by (simp add: exampleState_def)
  have h1: "distinct (ids (forest exampleState))" by (simp add: f exampleForest_ids)
  have h2: "?n \<in> set (flattenForest (forest exampleState))" by (simp add: f exampleForest_def)
  have m: "TreeNode ''D'' ''North'' [] \<in> set (flattenForest (forest exampleState))"
    by (simp add: f exampleForest_def)
  from cascade_delete_exact [OF h1 h2, of "''u''" 3]
  have "ids (forest (deleteNodeAndChildren ''u'' 3 ''A'' exampleState)) = [''D'']"
    and "map nid (forest (deleteNodeAndChildren ''u'' 3 ''A'' exampleState)) = [''D'']"
    and "\<forall>m \<in> set (flattenForest (forest exampleState)).
           nid m \<notin> set (ids [?n]) \<and> nid ?n \<notin> set (ids [m])
           \<longrightarrow> m \<in> set (flattenForest (forest (deleteNodeAndChildren ''u'' 3 (nid ?n) exampleState)))"
    by (simp_all add: f exampleForest_def)
  with m h1 h2 show ?thesis by auto
qed

text \<open>The delete of an inner node: \<open>B\<close> goes, its parent \<open>A\<close> keeps \<open>C\<close>.\<close>

lemma cascade_delete_example:
  "forest (deleteNodeAndChildren ''u'' 3 ''B'' exampleState)
   = [TreeNode ''A'' ''Center'' [TreeNode ''C'' ''Tver'' []], TreeNode ''D'' ''North'' []]"
  by (simp add: forest_deleteNodeAndChildren exampleState_def exampleForest_def)

section \<open>Reassigning the children\<close>

lemma prune_append: "prune i (xs @ ys) = prune i xs @ prune i ys"
  by (induction i xs rule: prune.induct) auto

lemma graft_absent: "t \<notin> set (ids F) \<Longrightarrow> graft t xs F = F"
  by (induction t xs F rule: graft.induct) auto

lemma graft_roots: "map nid (graft t xs F) = map nid F"
  by (induction t xs F rule: graft.induct) auto

lemma pushChildren_None_iff: "(pushChildren t xs F = None) = (t \<notin> set (ids F))"
  by (induction t xs F rule: pushChildren.induct) (auto split: option.splits)

lemma pushChildren_graft:
  "distinct (ids F) \<Longrightarrow> t \<in> set (ids F) \<Longrightarrow> pushChildren t xs F = Some (graft t xs F)"
proof (induction t xs F rule: pushChildren.induct)
  case (1 t xs)
  then show ?case by simp
next
  case (2 t xs a nm cs ns)
  from "2.prems"(1) have d: "distinct (ids cs)" "distinct (ids ns)" "a \<notin> set (ids cs)"
    "a \<notin> set (ids ns)" "set (ids cs) \<inter> set (ids ns) = {}" by auto
  show ?case
  proof (cases "a = t")
    case True
    with d show ?thesis by (simp add: graft_absent)
  next
    case False
    show ?thesis
    proof (cases "t \<in> set (ids cs)")
      case True
      then have "t \<notin> set (ids ns)" using d by auto
      with "2.IH"(1) [OF False d(1) True] False show ?thesis by (simp add: graft_absent)
    next
      case nocs: False
      then have none: "pushChildren t xs cs = None" by (simp add: pushChildren_None_iff)
      from nocs "2.prems"(2) False have "t \<in> set (ids ns)" by auto
      with "2.IH"(2) [OF False none d(2)] False none nocs show ?thesis by (simp add: graft_absent)
    qed
  qed
qed

lemma graft_keeps:
  "m \<in> set (flattenForest F) \<Longrightarrow> t \<notin> set (ids [m]) \<Longrightarrow> m \<in> set (flattenForest (graft t xs F))"
proof (induction t xs F rule: graft.induct)
  case (1 t xs)
  then show ?case by simp
next
  case (2 t xs a nm cs ns)
  consider "m = TreeNode a nm cs" | "m \<in> set (flattenForest cs)" | "m \<in> set (flattenForest ns)"
    using "2.prems"(1) by auto
  then show ?case
  proof cases
    case 1
    with "2.prems"(2) show ?thesis by (auto simp: graft_absent)
  next
    case 2
    with "2.IH"(1) "2.prems"(2) show ?thesis by simp
  next
    case 3
    with "2.IH"(2) "2.prems"(2) show ?thesis by simp
  qed
qed

lemma graft_ids_mset:
  "distinct (ids F) \<Longrightarrow>
   mset (ids (graft t xs F)) = mset (ids F) + (if t \<in> set (ids F) then mset (ids xs) else {#})"
proof (induction t xs F rule: graft.induct)
  case (1 t xs)
  then show ?case by simp
next
  case (2 t xs a nm cs ns)
  from "2.prems"(1) have d: "distinct (ids cs)" "distinct (ids ns)" "a \<notin> set (ids cs)"
    "a \<notin> set (ids ns)" "set (ids cs) \<inter> set (ids ns) = {}" by auto
  from d have "\<not> (t \<in> set (ids cs) \<and> t \<in> set (ids ns))" by auto
  with "2.IH"(1) [OF d(1)] "2.IH"(2) [OF d(2)] d(3,4) show ?case by auto
qed

lemma graft_count_other:
  "i \<notin> set (ids xs) \<Longrightarrow> count_list (ids (graft t xs F)) i = count_list (ids F) i"
  by (induction t xs F rule: graft.induct) (auto simp: count_list_0_iff)

text \<open>Where the id occurs once, pruning takes the ids of the subtree of its node away.\<close>

lemma prune_ids_mset:
  "count_list (ids G) i \<le> 1 \<Longrightarrow> k \<in> set (flattenForest G) \<Longrightarrow> nid k = i \<Longrightarrow>
   mset (ids (prune i G)) + mset (ids [k]) = mset (ids G)"
proof (induction i G rule: prune.induct)
  case (1 i)
  then show ?case by simp
next
  case (2 i a nm cs ns)
  let ?x = "TreeNode a nm cs"
  show ?case
  proof (cases "a = i")
    case True
    with "2.prems"(1) have "count_list (ids cs) i = 0" "count_list (ids ns) i = 0" by auto
    then have no: "i \<notin> set (ids cs)" "i \<notin> set (ids ns)" by (simp_all add: count_list_0_iff)
    then have "k \<notin> set (flattenForest cs)" "k \<notin> set (flattenForest ns)"
      using "2.prems"(3) nid_in_ids by auto
    with "2.prems"(2) have "k = ?x" by simp
    with True no show ?thesis by (simp add: prune_absent)
  next
    case False
    then have kx: "k \<noteq> ?x" using "2.prems"(3) by auto
    show ?thesis
    proof (cases "k \<in> set (flattenForest cs)")
      case True
      then have "i \<in> set (ids cs)" using "2.prems"(3) nid_in_ids by auto
      then have "count_list (ids cs) i \<noteq> 0" by (simp add: count_list_0_iff)
      with "2.prems"(1) False have c: "count_list (ids cs) i \<le> 1" "count_list (ids ns) i = 0" by auto
      then have "i \<notin> set (ids ns)" by (simp add: count_list_0_iff)
      with "2.IH"(2) [OF False c(1) True "2.prems"(3)] False show ?thesis
        by (simp add: prune_absent ids_Cons)
    next
      case nocs: False
      with "2.prems"(2) kx have ns: "k \<in> set (flattenForest ns)" by auto
      then have "i \<in> set (ids ns)" using "2.prems"(3) nid_in_ids by auto
      then have "count_list (ids ns) i \<noteq> 0" by (simp add: count_list_0_iff)
      with "2.prems"(1) False have c: "count_list (ids ns) i \<le> 1" "count_list (ids cs) i = 0" by auto
      then have "i \<notin> set (ids cs)" by (simp add: count_list_0_iff)
      with "2.IH"(3) [OF False c(1) ns "2.prems"(3)] False show ?thesis
        by (simp add: prune_absent ids_Cons)
    qed
  qed
qed

text \<open>
  The node with the id \<open>t\<close>, when it is not below a node with the id \<open>i\<close>, is in the
  result with its old children pruned and \<open>xs\<close> after them.
\<close>

lemma prune_graft_target:
  "distinct (ids F) \<Longrightarrow> t0 \<in> set (flattenForest F) \<Longrightarrow> nid t0 \<noteq> i \<Longrightarrow>
   i \<notin> set (ids xs) \<Longrightarrow>
   (\<forall>k \<in> set (flattenForest F). nid k = i \<longrightarrow> nid t0 \<notin> set (ids (children k))) \<Longrightarrow>
   TreeNode (nid t0) (name t0) (prune i (children t0) @ xs)
     \<in> set (flattenForest (prune i (graft (nid t0) xs F)))"
proof (induction F rule: flattenForest.induct)
  case 1
  then show ?case by simp
next
  case (2 a nm cs ns)
  let ?x = "TreeNode a nm cs"
  let ?t = "nid t0"
  from "2.prems"(1) have d: "distinct (ids cs)" "distinct (ids ns)" "a \<notin> set (ids cs)"
    "a \<notin> set (ids ns)" "set (ids cs) \<inter> set (ids ns) = {}" by auto
  have below: "\<forall>k \<in> set (flattenForest cs). nid k = i \<longrightarrow> ?t \<notin> set (ids (children k))"
    and later: "\<forall>k \<in> set (flattenForest ns). nid k = i \<longrightarrow> ?t \<notin> set (ids (children k))"
    using "2.prems"(5) by auto
  consider (here) "t0 = ?x" | (incs) "t0 \<in> set (flattenForest cs)" | (inns) "t0 \<in> set (flattenForest ns)"
    using "2.prems"(2) by auto
  then show ?case
  proof cases
    case here
    then have "a \<noteq> i" using "2.prems"(3) by auto
    with here d "2.prems"(4) show ?thesis
      by (simp add: graft_absent prune_append prune_absent)
  next
    case incs
    then have tin: "?t \<in> set (ids cs)" by (rule nid_in_ids)
    then have "a \<noteq> ?t" using d by auto
    moreover have "a \<noteq> i"
    proof
      assume "a = i"
      with "2.prems"(5) have "?t \<notin> set (ids (children ?x))" by auto
      with tin show False by simp
    qed
    ultimately show ?thesis
      using "2.IH"(1) [OF d(1) incs "2.prems"(3,4) below] by (simp add: prune_append)
  next
    case inns
    then have "?t \<in> set (ids ns)" by (rule nid_in_ids)
    then have "a \<noteq> ?t" using d by auto
    then show ?thesis
      using "2.IH"(2) [OF d(2) inns "2.prems"(3,4) later] by (simp add: prune_append)
  qed
qed

text \<open>
  A node whose subtree has neither id and that is not below a node with the id \<open>i\<close>
  stays where it is, unchanged.
\<close>

lemma prune_graft_keeps:
  "m \<in> set (flattenForest F) \<Longrightarrow> i \<notin> set (ids [m]) \<Longrightarrow> t \<notin> set (ids [m]) \<Longrightarrow>
   (\<forall>k \<in> set (flattenForest F). nid k = i \<longrightarrow> m \<notin> set (flattenForest (children k))) \<Longrightarrow>
   m \<in> set (flattenForest (prune i (graft t xs F)))"
proof (induction F rule: flattenForest.induct)
  case 1
  then show ?case by simp
next
  case (2 a nm cs ns)
  let ?x = "TreeNode a nm cs"
  have below: "\<forall>k \<in> set (flattenForest cs). nid k = i \<longrightarrow> m \<notin> set (flattenForest (children k))"
    and later: "\<forall>k \<in> set (flattenForest ns). nid k = i \<longrightarrow> m \<notin> set (flattenForest (children k))"
    using "2.prems"(4) by auto
  consider (here) "m = ?x" | (incs) "m \<in> set (flattenForest cs)" | (inns) "m \<in> set (flattenForest ns)"
    using "2.prems"(1) by auto
  then show ?case
  proof cases
    case here
    with "2.prems"(2,3) have "a \<noteq> i" "a \<noteq> t" "i \<notin> set (ids cs)" "t \<notin> set (ids cs)" by auto
    with here show ?thesis by (simp add: graft_absent prune_absent)
  next
    case incs
    have "a \<noteq> i"
    proof
      assume "a = i"
      with "2.prems"(4) have "m \<notin> set (flattenForest (children ?x))" by auto
      with incs show False by simp
    qed
    then show ?thesis
      using "2.IH"(1) [OF incs "2.prems"(2,3) below] by (simp add: prune_append)
  next
    case inns
    then show ?thesis
      using "2.IH"(2) [OF inns "2.prems"(2,3) later] by (simp add: prune_append)
  qed
qed

lemma distinct_subtree:
  "distinct (ids F) \<Longrightarrow> n \<in> set (flattenForest F) \<Longrightarrow> distinct (ids [n])"
  by (induction F rule: flattenForest.induct) auto

lemma forest_closeDeleteDialog [simp]: "forest (closeDeleteDialog st) = forest st"
  by (simp add: closeDeleteDialog_def)

text \<open>What \<open>confirmReassignChildren\<close> makes of the forest, for a target it accepts.\<close>

lemma forest_confirmReassignChildren:
  assumes "distinct (ids (forest st))" and "n \<in> set (flattenForest (forest st))"
    and "t \<in> set (ids (forest st))" and "t \<noteq> nid n" and "t \<notin> set (ids (children n))"
    and "nid n \<noteq> []" and "t \<noteq> []"
    and "dialogNodeId (deleteDialog st) = Some (nid n)" and "reassignTargetId st = Some t"
  shows "forest (confirmReassignChildren u now st)
         = prune (nid n) (graft t (children n) (forest st))"
proof -
  let ?F = "forest st"
  have nd: "\<not> isDescendant ?F (nid n) t" using assms(1,2,5) by (simp add: isDescendant_iff)
  have fnd: "snd (findNodeAndParent ?F (nid n)) = Some n" using assms(1,2) by (rule findNodeAndParent_finds)
  have push: "pushChildren t (children n) ?F = Some (graft t (children n) ?F)"
    using assms(1,3) by (rule pushChildren_graft)
  have "nid n \<notin> set (ids (children n))"
    using distinct_subtree [OF assms(1,2)] by (simp add: ids_Cons)
  then have "count_list (ids (graft t (children n) ?F)) (nid n) = count_list (ids ?F) (nid n)"
    by (rule graft_count_other)
  then have "count_list (ids (graft t (children n) ?F)) (nid n) \<le> 1"
    using distinct_count_le_1 [OF assms(1)] by simp
  then have "removeNode (nid n) (graft t (children n) ?F) = prune (nid n) (graft t (children n) ?F)"
    by (rule removeNode_prune)
  with nd fnd push assms(4,6-9) show ?thesis
    by (simp add: confirmReassignChildren_def)
qed

text \<open>
  C2.  In a forest with distinct, non-empty ids let \<open>n\<close> and \<open>t0\<close> be nodes, \<open>t0\<close> neither
  \<open>n\<close> nor below \<open>n\<close>, and let the delete dialog be open for \<open>n\<close> with \<open>t0\<close> chosen as the
  target.  After \<open>confirmReassignChildren\<close> the forest has a node with the id and name
  of \<open>t0\<close> whose children are what is left of the old children of \<open>t0\<close>, in their
  order (\<open>n\<close> left out where it was one of them), followed by the children of \<open>n\<close> as
  they were, each with its whole subtree.  The id of \<open>n\<close> is gone and no other id is,
  the ids stay distinct, the surviving roots keep their order, and every node whose
  subtree holds neither \<open>n\<close> nor \<open>t0\<close> is in the new forest unchanged.
\<close>

theorem reassign_delete_exact:
  assumes "distinct (ids (forest st))"
    and "n \<in> set (flattenForest (forest st))" and "t0 \<in> set (flattenForest (forest st))"
    and "nid t0 \<noteq> nid n" and "nid t0 \<notin> set (ids (children n))"
    and "nid n \<noteq> []" and "nid t0 \<noteq> []"
    and "dialogNodeId (deleteDialog st) = Some (nid n)"
    and "reassignTargetId st = Some (nid t0)"
  shows "(\<exists>t' \<in> set (flattenForest (forest (confirmReassignChildren u now st))). \<exists>pre.
            nid t' = nid t0 \<and> name t' = name t0 \<and> children t' = pre @ children n
            \<and> map nid pre = filter (\<lambda>j. j \<noteq> nid n) (map nid (children t0)))
     \<and> nid n \<notin> set (ids (forest (confirmReassignChildren u now st)))
     \<and> set (ids (forest (confirmReassignChildren u now st))) = set (ids (forest st)) - {nid n}
     \<and> distinct (ids (forest (confirmReassignChildren u now st)))
     \<and> map nid (forest (confirmReassignChildren u now st))
          = filter (\<lambda>j. j \<noteq> nid n) (map nid (forest st))
     \<and> (\<forall>m \<in> set (flattenForest (forest st)).
           nid n \<notin> set (ids [m]) \<and> nid t0 \<notin> set (ids [m])
           \<longrightarrow> m \<in> set (flattenForest (forest (confirmReassignChildren u now st))))"
proof -
  let ?F = "forest st"
  let ?i = "nid n"
  let ?t = "nid t0"
  let ?xs = "children n"
  let ?G = "graft ?t ?xs ?F"
  let ?F' = "prune ?i ?G"
  have tin: "?t \<in> set (ids ?F)" using assms(3) by (rule nid_in_ids)
  have eq: "forest (confirmReassignChildren u now st) = ?F'"
    using assms(1,2) tin assms(4-9) by (rule forest_confirmReassignChildren)
  have ixs: "?i \<notin> set (ids ?xs)"
    using distinct_subtree [OF assms(1,2)] by (simp add: ids_Cons)
  have only_n: "k = n" if "k \<in> set (flattenForest ?F)" "nid k = ?i" for k
    using assms(1,2) that by (rule distinct_ids_node_eq)
  \<comment> \<open>the target\<close>
  have "\<forall>k \<in> set (flattenForest ?F). nid k = ?i \<longrightarrow> ?t \<notin> set (ids (children k))"
    using only_n assms(5) by auto
  with assms(1,3,4) ixs
  have tgt: "TreeNode ?t (name t0) (prune ?i (children t0) @ ?xs) \<in> set (flattenForest ?F')"
    by (intro prune_graft_target) auto
  have pre: "map nid (prune ?i (children t0)) = filter (\<lambda>j. j \<noteq> ?i) (map nid (children t0))"
    by (rule prune_roots)
  have c1: "\<exists>t' \<in> set (flattenForest ?F'). \<exists>pre.
            nid t' = ?t \<and> name t' = name t0 \<and> children t' = pre @ ?xs
            \<and> map nid pre = filter (\<lambda>j. j \<noteq> ?i) (map nid (children t0))"
    using tgt pre by (intro bexI [of _ "TreeNode ?t (name t0) (prune ?i (children t0) @ ?xs)"]) auto
  \<comment> \<open>the ids\<close>
  have tn: "?t \<notin> set (ids [n])" using assms(4,5) by (simp add: ids_Cons)
  have nG: "n \<in> set (flattenForest ?G)" using assms(2) tn by (rule graft_keeps)
  have "count_list (ids ?G) ?i = count_list (ids ?F) ?i" using ixs by (rule graft_count_other)
  then have cnt: "count_list (ids ?G) ?i \<le> 1" using distinct_count_le_1 [OF assms(1)] by simp
  have "mset (ids ?F') + mset (ids [n]) = mset (ids ?G)"
    using cnt nG refl by (rule prune_ids_mset)
  moreover have "mset (ids ?G) = mset (ids ?F) + mset (ids ?xs)"
    using graft_ids_mset [OF assms(1), of ?t ?xs] tin by simp
  ultimately have ms: "mset (?i # ids ?F') = mset (ids ?F)" by (simp add: ids_Cons)
  then have dist: "distinct (?i # ids ?F')"
    using assms(1) mset_eq_imp_distinct_iff by blast
  from ms have "set (?i # ids ?F') = set (ids ?F)" by (rule mset_eq_setD)
  with dist have c23: "?i \<notin> set (ids ?F')" "set (ids ?F') = set (ids ?F) - {?i}"
    "distinct (ids ?F')" by auto
  \<comment> \<open>the roots\<close>
  have c4: "map nid ?F' = filter (\<lambda>j. j \<noteq> ?i) (map nid ?F)"
    by (simp add: prune_roots graft_roots)
  \<comment> \<open>the subtrees away from both nodes\<close>
  have c5: "m \<in> set (flattenForest ?F')"
    if m: "m \<in> set (flattenForest ?F)" "?i \<notin> set (ids [m])" "?t \<notin> set (ids [m])" for m
  proof (cases "m \<in> set (flattenForest ?xs)")
    case True
    have "set (flattenForest (children (TreeNode ?t (name t0) (prune ?i (children t0) @ ?xs))))
          \<subseteq> set (flattenForest ?F')"
      using tgt by (rule flattenForest_children_subset)
    with True show ?thesis by auto
  next
    case False
    then have "\<forall>k \<in> set (flattenForest ?F). nid k = ?i \<longrightarrow> m \<notin> set (flattenForest (children k))"
      using only_n by auto
    with m show ?thesis by (intro prune_graft_keeps)
  qed
  from c1 c23 c4 c5 show ?thesis unfolding eq by blast
qed

theorem reassign_delete_exact_witness:
  "distinct (ids (forest (exampleState\<lparr>deleteDialog := \<lparr>isOpen = True, dialogNodeId = Some ''A''\<rparr>,
           reassignTargetId := Some ''D''\<rparr>)))
   \<and> forest (confirmReassignChildren ''u'' 3
        (exampleState\<lparr>deleteDialog := \<lparr>isOpen = True, dialogNodeId = Some ''A''\<rparr>,
           reassignTargetId := Some ''D''\<rparr>))
      = [TreeNode ''D'' ''North'' [TreeNode ''B'' ''Moscow'' [], TreeNode ''C'' ''Tver'' []]]
   \<and> ''A'' \<notin> set (ids (forest (confirmReassignChildren ''u'' 3
        (exampleState\<lparr>deleteDialog := \<lparr>isOpen = True, dialogNodeId = Some ''A''\<rparr>,
           reassignTargetId := Some ''D''\<rparr>))))
   \<and> set (ids (forest (confirmReassignChildren ''u'' 3
        (exampleState\<lparr>deleteDialog := \<lparr>isOpen = True, dialogNodeId = Some ''A''\<rparr>,
           reassignTargetId := Some ''D''\<rparr>)))) = {''B'', ''C'', ''D''}"
proof -
  let ?n = "TreeNode ''A'' ''Center'' [TreeNode ''B'' ''Moscow'' [], TreeNode ''C'' ''Tver'' []]"
  let ?t = "TreeNode ''D'' ''North'' []"
  let ?st = "exampleState\<lparr>deleteDialog := \<lparr>isOpen = True, dialogNodeId = Some ''A''\<rparr>,
           reassignTargetId := Some ''D''\<rparr>"
  have f: "forest ?st = exampleForest" by (simp add: exampleState_def)
  have h1: "distinct (ids (forest ?st))" by (simp add: f exampleForest_ids)
  have h2: "?n \<in> set (flattenForest (forest ?st))" by (simp add: f exampleForest_def)
  have h3: "?t \<in> set (flattenForest (forest ?st))" by (simp add: f exampleForest_def)
  have h4: "nid ?t \<noteq> nid ?n" by simp
  have h5: "nid ?t \<notin> set (ids (children ?n))" by simp
  have h6: "nid ?n \<noteq> []" by simp
  have h7: "nid ?t \<noteq> []" by simp
  have h8: "dialogNodeId (deleteDialog ?st) = Some (nid ?n)" by simp
  have h9: "reassignTargetId ?st = Some (nid ?t)" by simp
  have ev: "forest (confirmReassignChildren ''u'' 3 ?st)
      = [TreeNode ''D'' ''North'' [TreeNode ''B'' ''Moscow'' [], TreeNode ''C'' ''Tver'' []]]"
    by (simp add: confirmReassignChildren_def exampleState_def exampleForest_def
      isDescendant_def findNodeAndParent_def)
  from reassign_delete_exact [OF h1 h2 h3 h4 h5 h6 h7 h8 h9, of "''u''" 3]
  have "''A'' \<notin> set (ids (forest (confirmReassignChildren ''u'' 3 ?st)))"
    and "set (ids (forest (confirmReassignChildren ''u'' 3 ?st))) = set (ids (forest ?st)) - {''A''}"
    by simp_all
  then show ?thesis using h1 ev by (auto simp: f exampleForest_ids)
qed

text \<open>
  A target above the deleted node: deleting \<open>B\<close> in \<open>[A[B[E], C]]\<close> with its parent \<open>A\<close>
  as the target leaves \<open>[A[C, E]]\<close>.
\<close>

lemma reassign_to_parent_example:
  "forest (confirmReassignChildren ''u'' 3
     (exampleState\<lparr>forest := [TreeNode ''A'' ''a'' [TreeNode ''B'' ''b'' [TreeNode ''E'' ''e'' []],
                                                    TreeNode ''C'' ''c'' []]],
        deleteDialog := \<lparr>isOpen = True, dialogNodeId = Some ''B''\<rparr>,
        reassignTargetId := Some ''A''\<rparr>))
   = [TreeNode ''A'' ''a'' [TreeNode ''C'' ''c'' [], TreeNode ''E'' ''e'' []]]"
  by (simp add: confirmReassignChildren_def exampleState_def
      isDescendant_def findNodeAndParent_def)

section \<open>Double-precision arithmetic\<close>

lemma pow2_pos: "0 < pow2 e"
  by (simp add: pow2_def)

lemma pow2_nonneg_exp: "0 \<le> e \<Longrightarrow> pow2 e = 2 ^ nat e"
  by (simp add: pow2_def)

lemma pow2_add: "pow2 (a + b) = pow2 a * pow2 b"
proof -
  have "pow2 e = 2 powi e" for e
    by (simp add: pow2_def power_int_def field_simps)
  then show ?thesis by (simp add: power_int_add)
qed

lemma of_int_le_power2: "(n :: int) \<le> 2 ^ k \<Longrightarrow> (of_int n :: rat) \<le> 2 ^ k"
proof -
  assume "n \<le> 2 ^ k"
  then have "(of_int n :: rat) \<le> of_int (2 ^ k)" by (simp only: of_int_le_iff)
  then show ?thesis by simp
qed

lemma power2_le_of_int: "2 ^ k \<le> (n :: int) \<Longrightarrow> (2 ^ k :: rat) \<le> of_int n"
proof -
  assume "2 ^ k \<le> n"
  then have "(of_int (2 ^ k) :: rat) \<le> of_int n" by (simp only: of_int_le_iff)
  then show ?thesis by simp
qed

text \<open>\<open>floorLog2\<close> is the exponent of the leading binary digit.\<close>

lemma floorLog2_bounds:
  assumes "0 < a"
  shows "pow2 (floorLog2 a) \<le> a" and "a < pow2 (floorLog2 a + 1)"
proof -
  have "pow2 (floorLog2 a) \<le> a \<and> a < pow2 (floorLog2 a + 1)"
  proof (cases "1 \<le> a")
    case True
    let ?n = "\<lfloor>a\<rfloor>"
    have n: "0 < ?n" using True by simp
    from bitlen_bounds [OF n] have lo: "2 ^ nat (bitlen ?n - 1) \<le> ?n"
      and hi: "?n < 2 ^ nat (bitlen ?n)" by simp_all
    have b1: "1 \<le> bitlen ?n" using n by (simp add: bitlen_alt_def)
    have e: "floorLog2 a = bitlen ?n - 1" using True by (simp add: floorLog2_def)
    have "(2 ^ nat (bitlen ?n - 1) :: rat) \<le> of_int ?n" using lo by (rule power2_le_of_int)
    also have "\<dots> \<le> a" by simp
    finally have l: "pow2 (floorLog2 a) \<le> a" using b1 by (simp add: e pow2_def)
    have "?n + 1 \<le> 2 ^ nat (bitlen ?n)" using hi by simp
    then have "(of_int (?n + 1) :: rat) \<le> 2 ^ nat (bitlen ?n)" by (rule of_int_le_power2)
    moreover have "a < of_int (?n + 1)" by linarith
    ultimately have "a < 2 ^ nat (bitlen ?n)" by simp
    then have "a < pow2 (floorLog2 a + 1)" using b1 by (simp add: e pow2_def)
    with l show ?thesis by simp
  next
    case False
    then have a1: "a < 1" by simp
    let ?b = "1 / a"
    let ?m = "\<lceil>?b\<rceil>"
    have b: "1 < ?b" using assms a1 by simp
    then have m2: "2 \<le> ?m" by linarith
    then have m: "0 < ?m - 1" by simp
    let ?k = "bitlen (?m - 1)"
    from bitlen_bounds [OF m] have lo: "2 ^ nat (?k - 1) \<le> ?m - 1"
      and hi: "?m - 1 < 2 ^ nat ?k" by simp_all
    have k1: "1 \<le> ?k" using m by (simp add: bitlen_alt_def)
    have e: "floorLog2 a = - ?k" using False by (simp add: floorLog2_def)
    have "?m \<le> 2 ^ nat ?k" using hi by simp
    then have "(of_int ?m :: rat) \<le> 2 ^ nat ?k" by (rule of_int_le_power2)
    moreover have "?b \<le> of_int ?m" by (rule le_of_int_ceiling)
    ultimately have "?b \<le> 2 ^ nat ?k" by (rule order_trans [rotated])
    then have "1 \<le> a * 2 ^ nat ?k" using assms by (simp add: field_simps)
    then have l: "pow2 (floorLog2 a) \<le> a" using k1 by (simp add: e pow2_def field_simps)
    have "(2 ^ nat (?k - 1) :: rat) \<le> of_int (?m - 1)" using lo by (rule power2_le_of_int)
    moreover have "of_int (?m - 1) < ?b" by linarith
    ultimately have "2 ^ nat (?k - 1) < ?b" by (rule le_less_trans)
    then have lt: "a * 2 ^ nat (?k - 1) < 1" using assms by (simp add: field_simps)
    have "a < pow2 (floorLog2 a + 1)"
    proof (cases "?k = 1")
      case True
      then show ?thesis using a1 by (simp add: e pow2_def)
    next
      case False
      with k1 have "1 < ?k" by simp
      then have p: "pow2 (floorLog2 a + 1) = 1 / 2 ^ nat (?k - 1)"
        by (simp add: e pow2_def)
      from lt have "a < 1 / 2 ^ nat (?k - 1)" by (simp add: pos_less_divide_eq)
      then show ?thesis by (simp only: p)
    qed
    with l show ?thesis by simp
  qed
  then show "pow2 (floorLog2 a) \<le> a" and "a < pow2 (floorLog2 a + 1)" by simp_all
qed

lemma roundHalfEven_near: "\<bar>of_int (roundHalfEven x) - x\<bar> \<le> 1 / 2"
proof -
  have "of_int \<lfloor>x\<rfloor> \<le> x" "x < of_int \<lfloor>x\<rfloor> + 1" by linarith+
  then show ?thesis by (auto simp: roundHalfEven_def Let_def abs_le_iff)
qed

lemma roundHalfEven_of_int [simp]: "roundHalfEven (of_int n) = n"
  by (simp add: roundHalfEven_def)

text \<open>
  The result is a multiple of the unit in the last place that lies within half a unit of
  the argument.
\<close>

lemma roundDouble_near:
  assumes "x \<noteq> 0"
  shows "\<bar>roundDouble x - x\<bar> \<le> pow2 (max (floorLog2 \<bar>x\<bar>) (- 1022) - 52) / 2"
proof -
  let ?u = "pow2 (max (floorLog2 \<bar>x\<bar>) (- 1022) - 52)"
  let ?r = "of_int (roundHalfEven (\<bar>x\<bar> / ?u)) :: rat"
  have u: "0 < ?u" by (rule pow2_pos)
  have r: "roundDouble x = sgn x * ?r * ?u" using assms by (simp add: roundDouble_def Let_def)
  have "x = sgn x * (\<bar>x\<bar> / ?u) * ?u" using u by (simp add: mult_sgn_abs)
  then have "roundDouble x - x = sgn x * (?r - \<bar>x\<bar> / ?u) * ?u"
    unfolding r by (simp add: algebra_simps)
  then have "\<bar>roundDouble x - x\<bar> = \<bar>?r - \<bar>x\<bar> / ?u\<bar> * ?u"
    using assms u by (simp add: abs_mult abs_sgn_eq)
  also have "\<dots> \<le> 1 / 2 * ?u"
    using roundHalfEven_near [of "\<bar>x\<bar> / ?u"] u by (intro mult_right_mono) simp_all
  finally show ?thesis by simp
qed

lemma pow2_powi: "pow2 e = 2 powi e"
  by (simp add: pow2_def power_int_def field_simps)

lemma pow2_strict_mono: "a < b \<Longrightarrow> pow2 a < pow2 b"
  unfolding pow2_powi by (rule power_int_strict_increasing) simp_all

lemma pow2_mono: "a \<le> b \<Longrightarrow> pow2 a \<le> pow2 b"
  unfolding pow2_powi by (rule power_int_increasing) simp_all

text \<open>A number that is a multiple of its unit in the last place is a double.\<close>

lemma roundDouble_exact:
  assumes "\<bar>x\<bar> / pow2 (max (floorLog2 \<bar>x\<bar>) (- 1022) - 52) = of_int m"
  shows "roundDouble x = x"
proof (cases "x = 0")
  case True
  then show ?thesis by (simp add: roundDouble_def)
next
  case False
  let ?u = "pow2 (max (floorLog2 \<bar>x\<bar>) (- 1022) - 52)"
  have u: "0 < ?u" by (rule pow2_pos)
  have "roundDouble x = sgn x * of_int (roundHalfEven (of_int m)) * ?u"
    using False assms by (simp add: roundDouble_def Let_def)
  also have "\<dots> = sgn x * (\<bar>x\<bar> / ?u) * ?u" by (simp add: assms)
  also have "\<dots> = x" using u by (simp add: mult_sgn_abs)
  finally show ?thesis .
qed

text \<open>
  The whole numbers up to \<open>2 ^ 53\<close> are doubles, and adding one to such a number below
  \<open>2 ^ 53\<close> is exact: a leaf counter and a number of children lose nothing in a double.
\<close>

lemma roundDouble_of_nat:
  assumes "n \<le> 2 ^ 53"
  shows "roundDouble (of_nat n) = of_nat n"
proof (cases "n = 0")
  case True
  then show ?thesis by (simp add: roundDouble_def)
next
  case False
  let ?a = "of_nat n :: rat"
  let ?e = "floorLog2 ?a"
  have a1: "1 \<le> ?a" using False by simp
  then have a0: "0 < ?a" by simp
  have abs: "\<bar>?a\<bar> = ?a" by simp
  have lo: "pow2 ?e \<le> ?a" and hi: "?a < pow2 (?e + 1)" using floorLog2_bounds [OF a0] by simp_all
  have a53: "?a \<le> pow2 53"
  proof -
    have "(of_nat n :: rat) \<le> of_nat (2 ^ 53)" using assms by (simp only: of_nat_le_iff)
    then show ?thesis by (simp add: pow2_def)
  qed
  have e0: "0 \<le> ?e"
  proof (rule ccontr)
    assume "\<not> 0 \<le> ?e"
    then have "?e + 1 \<le> 0" by simp
    then have "pow2 (?e + 1) \<le> pow2 0" by (rule pow2_mono)
    with hi a1 show False by (simp add: pow2_def)
  qed
  have e53: "?e \<le> 53"
  proof (rule ccontr)
    assume "\<not> ?e \<le> 53"
    then have "pow2 53 < pow2 ?e" by (intro pow2_strict_mono) simp
    with lo a53 show False by simp
  qed
  have mx: "max ?e (- 1022) = ?e" using e0 by simp
  have "\<exists>m. ?a / pow2 (?e - 52) = of_int m"
  proof (cases "?e \<le> 52")
    case True
    then have "pow2 (?e - 52) = 1 / 2 ^ nat (52 - ?e)"
      by (cases "?e = 52") (simp_all add: pow2_def)
    then have "?a / pow2 (?e - 52) = of_int (int n * 2 ^ nat (52 - ?e))" by simp
    then show ?thesis by blast
  next
    case False
    with e53 have e: "?e = 53" by simp
    with lo have "pow2 53 \<le> ?a" by simp
    with a53 have "?a = pow2 53" by simp
    then have av: "?a = 2 ^ 53" by (simp add: pow2_def)
    have pe: "pow2 (?e - 52) = 2" by (simp add: e pow2_def)
    have "?a / pow2 (?e - 52) = ?a / 2" by (simp only: pe)
    also have "\<dots> = 2 ^ 53 / 2" by (simp only: av)
    also have "\<dots> = of_int (2 ^ 52)" by simp
    finally show ?thesis by blast
  qed
  then obtain m where "\<bar>?a\<bar> / pow2 (max (floorLog2 \<bar>?a\<bar>) (- 1022) - 52) = of_int m"
    unfolding abs mx by blast
  then show ?thesis by (rule roundDouble_exact)
qed

lemma addDouble_counter:
  assumes "k < 2 ^ 53"
  shows "addDouble (of_nat k) 1 = of_nat (k + 1)"
proof -
  have "k + 1 \<le> 2 ^ 53" using assms by simp
  from roundDouble_of_nat [OF this] show ?thesis by (simp add: addDouble_def add.commute)
qed

section \<open>Layout\<close>

lemma leafCount_simps [simp]:
  "leafCount [] = 0"
  "leafCount (TreeNode i nm cs # ns) = (if cs = [] then 1 else 0) + leafCount cs + leafCount ns"
  "leafCount (xs @ ys) = leafCount xs + leafCount ys"
  by (simp_all add: leafCount_def)




























section \<open>The scenarios of the specification\<close>

text \<open>
  In \<open>[A[B, C], D]\<close>, dragging \<open>C\<close> onto \<open>B\<close> gives \<open>[A[B[C]], D]\<close>, selects \<open>C\<close> and logs
  one change; dragging \<open>A\<close> onto \<open>B\<close> changes neither the forest nor the ledger.
\<close>

lemma drag_scenario:
  "moveNodeAsChild exampleForest ''C'' ''B''
     = ([TreeNode ''A'' ''Center'' [TreeNode ''B'' ''Moscow'' [TreeNode ''C'' ''Tver'' []]],
         TreeNode ''D'' ''North'' []], True)"
  "changeLog (finishDrag ''u'' 9 (Some ''B'') ''C'' exampleState)
     = [\<lparr>itemId = ''u'', atTime = 9, summary = NodeMoved ''Tver'' ''Moscow''\<rparr>]"
  "selectedId (finishDrag ''u'' 9 (Some ''B'') ''C'' exampleState) = Some ''C''"
  "forest (finishDrag ''u'' 9 (Some ''B'') ''A'' exampleState) = exampleForest"
  "changeLog (finishDrag ''u'' 9 (Some ''B'') ''A'' exampleState) = []"
  by (simp_all add: moveNodeAsChild_def isDescendant_def findNodeAndParent_def detachNode_def
      finishDrag_def exampleState_def exampleForest_def addChange_def expandNode_def
      nodeNameOf_def sliceLast_def)

end
